theory Spec2Isabelle
  imports Complex_Main "HOL-Library.Sublist"
begin

section \<open>The Tree component of react-d3-tree (src/Tree/index.js)\<close>

text \<open>
  The component keeps a nested array of plain JavaScript objects (the nodes) in
  \<^verbatim>\<open>this.state.data\<close> and mutates them in place: \<^verbatim>\<open>collapseNode\<close> and
  \<^verbatim>\<open>expandNode\<close> write \<^verbatim>\<open>node._collapsed\<close>, the layout writes \<^verbatim>\<open>node.depth\<close>
  and \<^verbatim>\<open>node.children\<close>. The model therefore has an explicit store of objects:
  a node reference is an address, an array of nodes is a list of addresses, and every
  function that mutates takes the store and returns the new one.

  JavaScript numbers are modelled as reals (NaN and the infinities are left out); only
  comparisons are made on them.
\<close>

subsection \<open>Errors\<close>

text \<open>
  \<open>TypeError\<close>: a property is read from or written to \<^verbatim>\<open>undefined\<close>.
  \<open>RangeError\<close>: the call stack is exhausted (the recursion did not end within the
  fuel the model gives it).
\<close>

datatype error = TypeError | RangeError

subsection \<open>Nodes and the store\<close>

text \<open>
  The fields of a node object that the component reads or writes. \<open>None\<close> is
  \<^verbatim>\<open>undefined\<close> (the property is absent). \<open>node_id\<close> is \<^verbatim>\<open>node.id\<close>,
  \<open>u_collapsed\<close> is \<^verbatim>\<open>node._collapsed\<close>, \<open>u_children\<close> is \<^verbatim>\<open>node._children\<close>.
  The flag \<^verbatim>\<open>_collapsed\<close> is a boolean when present. No function of the component
  changes an array in place, so an array is represented by the list of its elements.
  An address that the store does not map is the value \<^verbatim>\<open>undefined\<close>.
  The positions \<^verbatim>\<open>x\<close>, \<^verbatim>\<open>y\<close> and the back pointer \<^verbatim>\<open>parent\<close> that the layout
  writes are not part of the model.
\<close>

type_synonym addr = nat

record node =
  node_id :: "string option"
  u_collapsed :: "bool option"
  children :: "addr list option"
  u_children :: "addr list option"
  depth :: "nat option"

type_synonym store = "addr \<Rightarrow> node option"

text \<open>JavaScript truthiness of the flag: \<^verbatim>\<open>undefined\<close> and \<^verbatim>\<open>false\<close> are falsy.\<close>

definition truthy :: "bool option \<Rightarrow> bool" where
  "truthy v = (case v of None \<Rightarrow> False | Some b \<Rightarrow> b)"

text \<open>\<^verbatim>\<open>Array.prototype.forEach\<close> with a callback that updates captured state and may throw.\<close>

fun forEach :: "('s \<Rightarrow> 'a \<Rightarrow> error + 's) \<Rightarrow> 'a list \<Rightarrow> 's \<Rightarrow> error + 's" where
  "forEach f [] s = Inr s"
| "forEach f (v # vs) s = (case f s v of Inl e \<Rightarrow> Inl e | Inr s' \<Rightarrow> forEach f vs s')"

text \<open>
  \<^verbatim>\<open>nodeSet.filter(node => p(node))\<close> where \<open>p\<close> reads a property of the node: an
  \<^verbatim>\<open>undefined\<close> element makes the callback throw.
\<close>

definition filterNodes :: "store \<Rightarrow> (node \<Rightarrow> bool) \<Rightarrow> addr list \<Rightarrow> error + addr list" where
  "filterNodes s p nodeSet =
     (if list_all (\<lambda>a. s a \<noteq> None) nodeSet
      then Inr (filter (\<lambda>a. case s a of None \<Rightarrow> False | Some n \<Rightarrow> p n) nodeSet)
      else Inl TypeError)"

text \<open>
  The children of a node through one of its two child fields (\<open>children\<close> or
  \<open>u_children\<close>); a node without the field, or an address without a node, has none.
\<close>

definition kids_by :: "(node \<Rightarrow> addr list option) \<Rightarrow> store \<Rightarrow> addr \<Rightarrow> addr list" where
  "kids_by sel s a =
     (case s a of None \<Rightarrow> [] | Some n \<Rightarrow> (case sel n of None \<Rightarrow> [] | Some cs \<Rightarrow> cs))"

subsection \<open>assignInternalProperties\<close>

text \<open>
  The argument is a single root object or an array of roots. \<^verbatim>\<open>uuid.v4()\<close> is a
  parameter: \<open>uuid i\<close> is the string that its \<open>i\<close>-th call returns, and the number of
  calls made so far is threaded with the store.
\<close>

datatype raw_data = Single addr | Many "addr list"

fun mapNodes :: "('s \<Rightarrow> 'a \<Rightarrow> error + 's) \<Rightarrow> 'a list \<Rightarrow> 's \<Rightarrow> error + ('a list \<times> 's)" where
  "mapNodes f [] s = Inr ([], s)"
| "mapNodes f (v # vs) s =
     (case f s v of Inl e \<Rightarrow> Inl e
      | Inr s' \<Rightarrow> (case mapNodes f vs s' of Inl e \<Rightarrow> Inl e | Inr (ws, s'') \<Rightarrow> Inr (v # ws, s'')))"

fun assignInternalProperties ::
  "nat \<Rightarrow> (nat \<Rightarrow> string) \<Rightarrow> raw_data \<Rightarrow> store \<times> nat \<Rightarrow> error + (addr list \<times> (store \<times> nat))" where
  "assignInternalProperties 0 uuid dat st = Inl RangeError"
| "assignInternalProperties (Suc fuel) uuid dat st =
     mapNodes
       (\<lambda>(s, i) a.
          case s a of None \<Rightarrow> Inl TypeError
          | Some n \<Rightarrow>
              let n1 = n\<lparr>node_id := Some (uuid i)\<rparr>;
                  n2 = (if u_collapsed n1 = None then n1\<lparr>u_collapsed := Some False\<rparr> else n1);
                  s2 = s(a \<mapsto> n2)
              in (case children n2 of
                    None \<Rightarrow> Inr (s2, Suc i)
                  | Some cs \<Rightarrow>
                      if length cs > 0 then
                        (case assignInternalProperties fuel uuid (Many cs) (s2, Suc i) of
                           Inl e \<Rightarrow> Inl e
                         | Inr (cs', (s3, j)) \<Rightarrow>
                             (case s3 a of None \<Rightarrow> Inl TypeError
                              | Some n3 \<Rightarrow>
                                  Inr (s3(a \<mapsto> n3\<lparr>children := Some cs', u_children := Some cs'\<rparr>), j)))
                      else Inr (s2, Suc i)))
       (case dat of Single a \<Rightarrow> [a] | Many as \<Rightarrow> as) st"

subsection \<open>findNodesById, findNodesAtDepth\<close>

fun findNodesById :: "nat \<Rightarrow> store \<Rightarrow> string \<Rightarrow> addr list \<Rightarrow> addr list \<Rightarrow> error + addr list" where
  "findNodesById 0 s nodeId nodeSet hits = Inl RangeError"
| "findNodesById (Suc fuel) s nodeId nodeSet hits =
     (if length hits > 0 then Inr hits
      else case filterNodes s (\<lambda>n. node_id n = Some nodeId) nodeSet of
             Inl e \<Rightarrow> Inl e
           | Inr ms \<Rightarrow>
               forEach
                 (\<lambda>hits a.
                    case s a of None \<Rightarrow> Inl TypeError
                    | Some n \<Rightarrow>
                        (case u_children n of
                           None \<Rightarrow> Inr hits
                         | Some cs \<Rightarrow>
                             if length cs > 0 then findNodesById fuel s nodeId cs hits
                             else Inr hits))
                 nodeSet (hits @ ms))"

fun findNodesAtDepth ::
  "nat \<Rightarrow> store \<Rightarrow> nat option \<Rightarrow> addr list \<Rightarrow> addr list \<Rightarrow> error + addr list" where
  "findNodesAtDepth 0 s d nodeSet accumulator = Inl RangeError"
| "findNodesAtDepth (Suc fuel) s d nodeSet accumulator =
     (case filterNodes s (\<lambda>n. depth n = d) nodeSet of
        Inl e \<Rightarrow> Inl e
      | Inr ms \<Rightarrow>
          forEach
            (\<lambda>accumulator a.
               case s a of None \<Rightarrow> Inl TypeError
               | Some n \<Rightarrow>
                   (case u_children n of
                      None \<Rightarrow> Inr accumulator
                    | Some cs \<Rightarrow>
                        if length cs > 0 then findNodesAtDepth fuel s d cs accumulator
                        else Inr accumulator))
            nodeSet (accumulator @ ms))"

subsection \<open>collapseNode, expandNode, collapseNeighborNodes\<close>

fun collapseNode :: "nat \<Rightarrow> store \<Rightarrow> addr \<Rightarrow> error + store" where
  "collapseNode 0 s a = Inl RangeError"
| "collapseNode (Suc fuel) s a =
     (case s a of None \<Rightarrow> Inl TypeError
      | Some n \<Rightarrow>
          let s1 = s(a \<mapsto> n\<lparr>u_collapsed := Some True\<rparr>)
          in (case u_children n of
                None \<Rightarrow> Inr s1
              | Some cs \<Rightarrow> if length cs > 0 then forEach (collapseNode fuel) cs s1 else Inr s1))"

definition expandNode :: "store \<Rightarrow> addr \<Rightarrow> error + store" where
  "expandNode s a =
     (case s a of None \<Rightarrow> Inl TypeError
      | Some n \<Rightarrow> Inr (s(a \<mapsto> n\<lparr>u_collapsed := Some False\<rparr>)))"

definition collapseNeighborNodes :: "nat \<Rightarrow> store \<Rightarrow> addr \<Rightarrow> addr list \<Rightarrow> error + store" where
  "collapseNeighborNodes fuel s targetNode nodeSet =
     (case s targetNode of None \<Rightarrow> Inl TypeError
      | Some t \<Rightarrow>
          (case findNodesAtDepth fuel s (depth t) nodeSet [] of
             Inl e \<Rightarrow> Inl e
           | Inr found \<Rightarrow>
               (case filterNodes s (\<lambda>n. node_id n \<noteq> node_id t) found of
                  Inl e \<Rightarrow> Inl e
                | Inr neighbors \<Rightarrow> forEach (collapseNode fuel) neighbors s)))"

subsection \<open>calculateD3Geometry\<close>

record point =
  px :: real
  py :: real

record extent =
  ext_min :: real
  ext_max :: real

record geometry =
  translate :: point
  scale :: real

text \<open>
  The three properties of \<^verbatim>\<open>nextProps\<close> that \<^verbatim>\<open>calculateD3Geometry\<close> reads; the
  record of all props extends this one.
\<close>

record geometry_props =
  zoom :: real
  scaleExtent :: extent
  p_translate :: point

definition calculateD3Geometry :: "'a geometry_props_scheme \<Rightarrow> geometry" where
  "calculateD3Geometry nextProps =
     (let scale =
        (if zoom nextProps > ext_max (scaleExtent nextProps) then ext_max (scaleExtent nextProps)
         else if zoom nextProps < ext_min (scaleExtent nextProps) then ext_min (scaleExtent nextProps)
         else zoom nextProps)
      in \<lparr> translate = p_translate nextProps, scale = scale \<rparr>)"

subsection \<open>The layout (d3.layout.tree)\<close>

text \<open>
  The accessor that \<^verbatim>\<open>generateTree\<close> gives to the layout:
  \<^verbatim>\<open>.children(d => (d._collapsed ? null : d._children))\<close>.
\<close>

definition childrenAccessor :: "node \<Rightarrow> addr list option" where
  "childrenAccessor d = (if truthy (u_collapsed d) then None else u_children d)"

text \<open>
  Modelled from the spec: the layout routine \<^verbatim>\<open>tree.nodes(root)\<close> belongs to the
  library d3, which is not among the sources. The model keeps what the specification
  says of it (sections 3 and 4.4): the walk starts at the root with depth 0, follows
  the children that the accessor returns, so that a collapsed node contributes no
  descendants; it writes \<^verbatim>\<open>depth\<close> on every node it reaches (the parent's depth plus
  one), sets \<^verbatim>\<open>children\<close> to the accessor's array, or deletes it when there is none;
  and it returns the nodes it reached, parents before children, siblings left to
  right. The state of the walk is the store and the nodes reached so far.
\<close>

fun hierarchy ::
  "(node \<Rightarrow> addr list option) \<Rightarrow> nat \<Rightarrow> nat \<Rightarrow> store \<times> addr list \<Rightarrow> addr
     \<Rightarrow> error + store \<times> addr list" where
  "hierarchy acc 0 d st a = Inl RangeError"
| "hierarchy acc (Suc fuel) d st a =
     (case fst st a of None \<Rightarrow> Inl TypeError
      | Some n \<Rightarrow>
          (case acc n of
             None \<Rightarrow> Inr ((fst st)(a \<mapsto> n\<lparr>children := None, depth := Some d\<rparr>), snd st @ [a])
           | Some cs \<Rightarrow>
               if length cs > 0
               then forEach (hierarchy acc fuel (Suc d)) cs
                      ((fst st)(a \<mapsto> n\<lparr>children := Some cs, depth := Some d\<rparr>), snd st @ [a])
               else Inr ((fst st)(a \<mapsto> n\<lparr>children := None, depth := Some d\<rparr>), snd st @ [a])))"

definition tree_nodes ::
  "(node \<Rightarrow> addr list option) \<Rightarrow> nat \<Rightarrow> store \<Rightarrow> addr \<Rightarrow> error + store \<times> addr list" where
  "tree_nodes acc fuel s rootNode = hierarchy acc fuel 0 (s, []) rootNode"

text \<open>
  Modelled from the spec: \<^verbatim>\<open>tree.links(nodes)\<close>, also of d3: one link from each
  laid-out node to each of its \<^verbatim>\<open>children\<close>.
\<close>

definition tree_links :: "store \<Rightarrow> addr list \<Rightarrow> (addr \<times> addr) list" where
  "tree_links s nodes = concat (map (\<lambda>p. map (\<lambda>c. (p, c)) (kids_by children s p)) nodes)"

subsection \<open>Props and state of the component\<close>

text \<open>
  The props that the modelled methods read. \<open>data_ref\<close> stands for the identity of the
  object passed as \<^verbatim>\<open>data\<close> (the component compares it with \<^verbatim>\<open>!==\<close>), \<open>p_data\<close> for
  the object, and \<open>p_heap\<close> for the store in which the nodes of that object live, as the
  parent holds them. \<open>onUpdate\<close> and \<open>onClick\<close> tell whether a function is supplied.
\<close>

record props = geometry_props +
  data_ref :: nat
  p_data :: raw_data
  p_heap :: store
  collapsible :: bool
  shouldCollapseNeighborNodes :: bool
  useCollapseData :: bool
  initialDepth :: "real option"
  transitionDuration :: real
  onUpdate :: bool
  onClick :: bool

text \<open>The argument of a call of \<^verbatim>\<open>onUpdate\<close>.\<close>

record update_note =
  un_node :: "addr option"
  un_zoom :: real
  un_translate :: point

text \<open>
  The component: \<^verbatim>\<open>this.props\<close>, \<^verbatim>\<open>this.state\<close> (\<open>dataRef\<close>, \<open>data\<close>, \<open>d3\<close>,
  \<open>isTransitioning\<close>; \<^verbatim>\<open>undefined\<close> reads as \<open>False\<close>), \<^verbatim>\<open>this.internalState\<close>
  (\<open>initialRender\<close>, \<open>targetNode\<close>), and the store in which the nodes live. The other
  fields record what the component does to its environment: the number of
  \<^verbatim>\<open>uuid.v4()\<close> calls, the delays of the pending \<^verbatim>\<open>setTimeout\<close> callbacks, the calls of
  \<^verbatim>\<open>onUpdate\<close> and \<^verbatim>\<open>onClick\<close>, the number of \<^verbatim>\<open>setState\<close> calls that installed a
  new \<^verbatim>\<open>data\<close>, and the number of \<^verbatim>\<open>tree.nodes\<close> calls.
\<close>

record component =
  this_props :: props
  store :: store
  dataRef :: nat
  data :: "addr list"
  d3 :: geometry
  isTransitioning :: bool
  initialRender :: bool
  targetNode :: "addr option"
  uuids :: nat
  timers :: "real list"
  onUpdateCalls :: "update_note list"
  onClickCalls :: "addr option list"
  dataCommits :: nat
  layoutPasses :: nat

subsection \<open>setInitialTreeDepth, generateTree\<close>

text \<open>\<^verbatim>\<open>n.depth >= initialDepth\<close>; with \<^verbatim>\<open>n.depth\<close> undefined the comparison is false.\<close>

definition depth_ge :: "node \<Rightarrow> real \<Rightarrow> bool" where
  "depth_ge n lo = (case depth n of None \<Rightarrow> False | Some d \<Rightarrow> real d \<ge> lo)"

definition setInitialTreeDepth :: "store \<Rightarrow> addr list \<Rightarrow> real \<Rightarrow> error + store" where
  "setInitialTreeDepth s nodeSet initialDepth' =
     forEach
       (\<lambda>s a. case s a of None \<Rightarrow> Inl TypeError
               | Some n \<Rightarrow> Inr (s(a \<mapsto> n\<lparr>u_collapsed := Some (depth_ge n initialDepth')\<rparr>)))
       nodeSet s"

text \<open>
  \<^verbatim>\<open>generateTree\<close> returns the component (its nodes laid out), the nodes and the
  links. The pass over \<^verbatim>\<open>depthFactor\<close> only writes positions and is left out.
\<close>

definition generateTree ::
  "nat \<Rightarrow> component \<Rightarrow> error + component \<times> addr list \<times> (addr \<times> addr) list" where
  "generateTree fuel c =
     (case data c of
        [] \<Rightarrow> Inl TypeError
      | rootNode # _ \<Rightarrow>
          (case tree_nodes childrenAccessor fuel (store c) rootNode of
             Inl e \<Rightarrow> Inl e
           | Inr (s1, nodes) \<Rightarrow>
               if useCollapseData (this_props c) = False
                  \<and> initialDepth (this_props c) \<noteq> None
                  \<and> initialRender c
               then
                 (case setInitialTreeDepth s1 nodes (the (initialDepth (this_props c))) of
                    Inl e \<Rightarrow> Inl e
                  | Inr s2 \<Rightarrow>
                      (case tree_nodes childrenAccessor fuel s2 rootNode of
                         Inl e \<Rightarrow> Inl e
                       | Inr (s3, nodes') \<Rightarrow>
                           Inr (c\<lparr>store := s3, layoutPasses := layoutPasses c + 2\<rparr>,
                                nodes', tree_links s3 nodes')))
               else Inr (c\<lparr>store := s1, layoutPasses := layoutPasses c + 1\<rparr>,
                         nodes, tree_links s1 nodes)))"

subsection \<open>Life cycle\<close>

text \<open>
  \<^verbatim>\<open>clone(nextProps.data)\<close> copies the nodes of the input data into objects of the
  component's own: the store of the component becomes a copy of \<open>p_heap\<close>, in which the
  copies have the addresses of their originals, and the parent's store is never
  written. The nodes that the component held before are dropped with its old store.
  In \<^verbatim>\<open>handleNodeToggle\<close>, \<^verbatim>\<open>clone(this.state.data)\<close> is the identity: the copy takes
  the place of the original (\<^verbatim>\<open>setState\<close> installs it) or is not written to.
\<close>

definition getDerivedStateFromProps ::
  "nat \<Rightarrow> (nat \<Rightarrow> string) \<Rightarrow> props \<Rightarrow> component \<Rightarrow> error + component" where
  "getDerivedStateFromProps fuel uuid nextProps c =
     (case (if data_ref nextProps \<noteq> dataRef c
            then (case assignInternalProperties fuel uuid (p_data nextProps)
                          (p_heap nextProps, uuids c) of
                    Inl e \<Rightarrow> Inl e
                  | Inr (d, (s, j)) \<Rightarrow>
                      Inr (c\<lparr>dataRef := data_ref nextProps, data := d, store := s, uuids := j\<rparr>))
            else Inr c) of
        Inl e \<Rightarrow> Inl e
      | Inr c1 \<Rightarrow>
          Inr (if calculateD3Geometry nextProps \<noteq> d3 c1
               then c1\<lparr>d3 := calculateD3Geometry nextProps\<rparr> else c1))"

definition componentDidMount :: "component \<Rightarrow> component" where
  "componentDidMount c = c\<lparr>initialRender := False\<rparr>"

definition componentDidUpdate :: "component \<Rightarrow> component" where
  "componentDidUpdate c =
     (if onUpdate (this_props c)
      then c\<lparr>onUpdateCalls := onUpdateCalls c @
                [\<lparr>un_node = targetNode c, un_zoom = scale (d3 c), un_translate = translate (d3 c)\<rparr>]\<rparr>
      else c)\<lparr>targetNode := None\<rparr>"

definition handleOnClickCb :: "component \<Rightarrow> addr option \<Rightarrow> component" where
  "handleOnClickCb c targetNode' =
     (if onClick (this_props c) then c\<lparr>onClickCalls := onClickCalls c @ [targetNode']\<rparr> else c)"

text \<open>
  The constructor (the class fields \<^verbatim>\<open>state\<close> and \<^verbatim>\<open>internalState\<close>), given the
  props; \<^verbatim>\<open>clone(this.props.data)\<close> as above.
\<close>

definition construct :: "nat \<Rightarrow> (nat \<Rightarrow> string) \<Rightarrow> props \<Rightarrow> error + component" where
  "construct fuel uuid p =
     (case assignInternalProperties fuel uuid (p_data p) (p_heap p, 0) of
        Inl e \<Rightarrow> Inl e
      | Inr (d, (s', j)) \<Rightarrow>
          Inr \<lparr>this_props = p, store = s', dataRef = data_ref p, data = d,
               d3 = calculateD3Geometry p, isTransitioning = False, initialRender = True,
               targetNode = None, uuids = j + 2, timers = [], onUpdateCalls = [],
               onClickCalls = [], dataCommits = 0, layoutPasses = 0\<rparr>)"

text \<open>
  React's life cycle, as React documents it. Mounting: constructor,
  \<^verbatim>\<open>getDerivedStateFromProps\<close>, \<^verbatim>\<open>render\<close>, \<^verbatim>\<open>componentDidMount\<close>. Updating (new
  props, or a \<^verbatim>\<open>setState\<close>): \<^verbatim>\<open>getDerivedStateFromProps\<close>, \<^verbatim>\<open>render\<close>,
  \<^verbatim>\<open>componentDidUpdate\<close>. Of \<^verbatim>\<open>render\<close> the model keeps the call of \<^verbatim>\<open>generateTree\<close>.
\<close>

definition mount :: "nat \<Rightarrow> (nat \<Rightarrow> string) \<Rightarrow> props \<Rightarrow> error + component" where
  "mount fuel uuid p =
     (case construct fuel uuid p of
        Inl e \<Rightarrow> Inl e
      | Inr c0 \<Rightarrow>
          (case getDerivedStateFromProps fuel uuid p c0 of
             Inl e \<Rightarrow> Inl e
           | Inr c1 \<Rightarrow>
               (case generateTree fuel c1 of
                  Inl e \<Rightarrow> Inl e
                | Inr (c2, _) \<Rightarrow> Inr (componentDidMount c2))))"

definition update :: "nat \<Rightarrow> (nat \<Rightarrow> string) \<Rightarrow> props \<Rightarrow> component \<Rightarrow> error + component" where
  "update fuel uuid nextProps c =
     (case getDerivedStateFromProps fuel uuid nextProps c of
        Inl e \<Rightarrow> Inl e
      | Inr c1 \<Rightarrow>
          (case generateTree fuel (c1\<lparr>this_props := nextProps\<rparr>) of
             Inl e \<Rightarrow> Inl e
           | Inr (c2, _) \<Rightarrow> Inr (componentDidUpdate c2)))"

subsection \<open>handleNodeToggle\<close>

text \<open>
  The handler runs to its end, then React applies the \<^verbatim>\<open>setState\<close> (an update), then
  calls the callback given to \<^verbatim>\<open>setState\<close>. \<^verbatim>\<open>matches[0]\<close> of an empty array is
  \<^verbatim>\<open>undefined\<close>, and reading \<^verbatim>\<open>targetNode._collapsed\<close> of it throws.
\<close>

definition handleNodeToggle ::
  "nat \<Rightarrow> (nat \<Rightarrow> string) \<Rightarrow> component \<Rightarrow> string \<Rightarrow> error + component" where
  "handleNodeToggle fuel uuid c nodeId =
     (case findNodesById fuel (store c) nodeId (data c) [] of
        Inl e \<Rightarrow> Inl e
      | Inr matches \<Rightarrow>
          let targetNode' = (case matches of [] \<Rightarrow> None | t # _ \<Rightarrow> Some t) in
          if collapsible (this_props c) \<and> \<not> isTransitioning c then
            (case targetNode' of
               None \<Rightarrow> Inl TypeError
             | Some t \<Rightarrow>
                 (case store c t of
                    None \<Rightarrow> Inl TypeError
                  | Some n \<Rightarrow>
                      (case (if truthy (u_collapsed n)
                             then (case expandNode (store c) t of
                                     Inl e \<Rightarrow> Inl e
                                   | Inr s1 \<Rightarrow>
                                       if shouldCollapseNeighborNodes (this_props c)
                                       then collapseNeighborNodes fuel s1 t (data c)
                                       else Inr s1)
                             else collapseNode fuel (store c) t) of
                         Inl e \<Rightarrow> Inl e
                       | Inr s' \<Rightarrow>
                           (case update fuel uuid (this_props c)
                                   (c\<lparr>store := s', isTransitioning := True,
                                      dataCommits := Suc (dataCommits c),
                                      timers := timers c @ [transitionDuration (this_props c) + 10],
                                      targetNode := Some t\<rparr>) of
                              Inl e \<Rightarrow> Inl e
                            | Inr c' \<Rightarrow> Inr (handleOnClickCb c' (Some t))))))
          else Inr (handleOnClickCb c targetNode'))"

subsection \<open>Events\<close>

text \<open>
  What happens to a mounted component: a node is activated (\<^verbatim>\<open>handleNodeToggle\<close>), the
  oldest pending timer fires (\<^verbatim>\<open>setState({ isTransitioning: false })\<close>), or the parent
  renders the component with props.
\<close>

datatype event = Toggle string | TimerFires | NewProps props

fun step :: "nat \<Rightarrow> (nat \<Rightarrow> string) \<Rightarrow> component \<Rightarrow> event \<Rightarrow> error + component" where
  "step fuel uuid c (Toggle nodeId) = handleNodeToggle fuel uuid c nodeId"
| "step fuel uuid c TimerFires =
     (case timers c of
        [] \<Rightarrow> Inr c
      | _ # ts \<Rightarrow> update fuel uuid (this_props c) (c\<lparr>isTransitioning := False, timers := ts\<rparr>))"
| "step fuel uuid c (NewProps p) = update fuel uuid p c"

section \<open>Notions of the specification\<close>

subsection \<open>Trees in the store\<close>

text \<open>
  \<open>child_rel sel s\<close> relates a node to each of its children; the descendants of \<open>a\<close>
  (with \<open>a\<close> itself) are the \<open>b\<close> with \<open>(a, b) \<in> (child_rel sel s)\<^sup>*\<close>.
\<close>

definition child_rel :: "(node \<Rightarrow> addr list option) \<Rightarrow> store \<Rightarrow> (addr \<times> addr) set" where
  "child_rel sel s = {(a, c). c \<in> set (kids_by sel s a)}"

text \<open>
  \<open>tree_within sel k s as\<close>: below the addresses \<open>as\<close> every array element is a node and no
  chain of children is longer than \<open>k\<close> nodes. It holds for some \<open>k\<close> exactly when the
  structure below \<open>as\<close> is finite, free of cycles and free of \<^verbatim>\<open>undefined\<close> elements;
  a recursion over it then needs at most \<open>k\<close> nested calls.
\<close>

fun tree_within :: "(node \<Rightarrow> addr list option) \<Rightarrow> nat \<Rightarrow> store \<Rightarrow> addr list \<Rightarrow> bool" where
  "tree_within sel 0 s as = False"
| "tree_within sel (Suc k) s as =
     list_all (\<lambda>a. s a \<noteq> None \<and> (kids_by sel s a = [] \<or> tree_within sel k s (kids_by sel s a))) as"

text \<open>The flag of the node at an address (\<open>None\<close> also when there is no node).\<close>

definition collapsed_at :: "store \<Rightarrow> addr \<Rightarrow> bool option" where
  "collapsed_at s a = (case s a of None \<Rightarrow> None | Some n \<Rightarrow> u_collapsed n)"

definition depth_at :: "store \<Rightarrow> addr \<Rightarrow> nat option" where
  "depth_at s a = (case s a of None \<Rightarrow> None | Some n \<Rightarrow> depth n)"

text \<open>
  \<open>has_depth s d\<close> and \<open>has_id s i\<close> are the tests that \<^verbatim>\<open>findNodesAtDepth\<close> and
  \<^verbatim>\<open>findNodesById\<close> make on a node: \<^verbatim>\<open>node.depth === depth\<close>,
  \<^verbatim>\<open>node.id === nodeId\<close>.
\<close>

definition has_depth :: "store \<Rightarrow> nat option \<Rightarrow> addr \<Rightarrow> bool" where
  "has_depth s d a = (case s a of None \<Rightarrow> False | Some n \<Rightarrow> depth n = d)"

definition has_id :: "store \<Rightarrow> string \<Rightarrow> addr \<Rightarrow> bool" where
  "has_id s i a = (case s a of None \<Rightarrow> False | Some n \<Rightarrow> node_id n = Some i)"


text \<open>
  The nodes below \<open>as\<close> through \<^verbatim>\<open>_children\<close>, down to \<open>k\<close> levels, in pre-order with
  siblings left to right (\<open>all_nodes\<close>), and in the order in which the two searches meet
  them: a whole array first, then the arrays below each of its elements
  (\<open>walk_order\<close>).
\<close>

fun all_nodes :: "nat \<Rightarrow> store \<Rightarrow> addr list \<Rightarrow> addr list" where
  "all_nodes 0 s as = []"
| "all_nodes (Suc k) s as = concat (map (\<lambda>a. a # all_nodes k s (kids_by u_children s a)) as)"

fun walk_order :: "nat \<Rightarrow> store \<Rightarrow> addr list \<Rightarrow> addr list" where
  "walk_order 0 s as = []"
| "walk_order (Suc k) s as = as @ concat (map (\<lambda>a. walk_order k s (kids_by u_children s a)) as)"

text \<open>
  The nodes whose path from a root in \<open>as\<close> has length \<open>d\<close>, in pre-order with siblings
  left to right.
\<close>

fun level_nodes :: "store \<Rightarrow> nat \<Rightarrow> addr list \<Rightarrow> addr list" where
  "level_nodes s 0 as = as"
| "level_nodes s (Suc d) as = concat (map (\<lambda>a. level_nodes s d (kids_by u_children s a)) as)"


subsection \<open>Values\<close>

text \<open>The specification's \<open>clamp(value, lower, upper)\<close>, written from its words.\<close>

definition clamp :: "real \<Rightarrow> real \<Rightarrow> real \<Rightarrow> real" where
  "clamp v lo hi = max lo (min hi v)"

text \<open>The specification's \<^verbatim>\<open>collapsed ?? false\<close>, for a flag that is a boolean or absent.\<close>

definition or_false :: "bool option \<Rightarrow> bool" where
  "or_false v = (case v of None \<Rightarrow> False | Some b \<Rightarrow> b)"

text \<open>The roots that \<^verbatim>\<open>assignInternalProperties\<close> is given: \<^verbatim>\<open>Array.isArray(data) ? data : [data]\<close>.\<close>

definition roots_of :: "raw_data \<Rightarrow> addr list" where
  "roots_of dat = (case dat of Single a \<Rightarrow> [a] | Many as \<Rightarrow> as)"

subsection \<open>Sequences of collapse and expand calls\<close>

text \<open>A call of \<^verbatim>\<open>collapseNode\<close> or of \<^verbatim>\<open>expandNode\<close> on a node, and a sequence of them.\<close>

datatype toggle_call = Collapse addr | Expand addr

fun target :: "toggle_call \<Rightarrow> addr" where
  "target (Collapse a) = a"
| "target (Expand a) = a"

fun run_call :: "nat \<Rightarrow> store \<Rightarrow> toggle_call \<Rightarrow> error + store" where
  "run_call fuel s (Collapse a) = collapseNode fuel s a"
| "run_call fuel s (Expand a) = expandNode s a"

definition run_calls :: "nat \<Rightarrow> store \<Rightarrow> toggle_call list \<Rightarrow> error + store" where
  "run_calls fuel s calls = forEach (run_call fuel) calls s"

subsection \<open>Relations between stores\<close>

text \<open>
  \<open>flags_only s s'\<close>: the store \<open>s'\<close> has the same nodes as \<open>s\<close>, and each node has
  the same fields, but for its flag \<^verbatim>\<open>_collapsed\<close>. \<open>collapsed_more s s'\<close>: moreover
  the flag only changed to \<^verbatim>\<open>true\<close>.
\<close>

definition mark :: "node \<Rightarrow> node" where
  "mark n = n\<lparr>u_collapsed := Some True\<rparr>"

definition collapsed_more :: "store \<Rightarrow> store \<Rightarrow> bool" where
  "collapsed_more s s' \<longleftrightarrow> (\<forall>b. s' b = s b \<or> s' b = map_option mark (s b))"

definition flags_only :: "store \<Rightarrow> store \<Rightarrow> bool" where
  "flags_only s s' \<longleftrightarrow> (\<forall>b. s' b = s b \<or> (\<exists>n v. s b = Some n \<and> s' b = Some (n\<lparr>u_collapsed := v\<rparr>)))"

text \<open>
  \<open>assign_rel s s'\<close>: from \<open>s\<close> to \<open>s'\<close> every node kept its field \<^verbatim>\<open>children\<close>, and
  its flag \<^verbatim>\<open>_collapsed\<close> either stayed or went from absent to \<^verbatim>\<open>false\<close>.
\<close>

definition assign_rel :: "store \<Rightarrow> store \<Rightarrow> bool" where
  "assign_rel s s' \<longleftrightarrow>
     (\<forall>b. case s b of
            None \<Rightarrow> s' b = None
          | Some n \<Rightarrow>
              (\<exists>n'. s' b = Some n' \<and> children n' = children n
                 \<and> (u_collapsed n' = u_collapsed n
                    \<or> (u_collapsed n = None \<and> u_collapsed n' = Some False))))"

text \<open>
  \<open>layout_only s s'\<close>: the store \<open>s'\<close> has the same nodes as \<open>s\<close>, and each node has
  the same fields, but for \<^verbatim>\<open>children\<close> and \<^verbatim>\<open>depth\<close>, which the layout may have
  written.
\<close>

definition layout_only :: "store \<Rightarrow> store \<Rightarrow> bool" where
  "layout_only s s' \<longleftrightarrow>
     (\<forall>b. s' b = s b
        \<or> (\<exists>n c d. s b = Some n \<and> s' b = Some (n\<lparr>children := c, depth := Some d\<rparr>)))"

section \<open>Examples\<close>

subsection \<open>Stores\<close>

text \<open>
  The tree \<^verbatim>\<open>{name:"A", children:[{name:"B"},{name:"C", children:[{name:"D"}]}]}\<close>
  after \<^verbatim>\<open>assignInternalProperties\<close> and a first layout: A, B, C, D live at the
  addresses 0, 1, 2, 3 and carry their names as ids.
\<close>

definition example_store :: store where
  "example_store =
     [0 \<mapsto> \<lparr>node_id = Some ''A'', u_collapsed = Some False, children = Some [1, 2],
             u_children = Some [1, 2], depth = Some 0\<rparr>,
      1 \<mapsto> \<lparr>node_id = Some ''B'', u_collapsed = Some False, children = None,
             u_children = None, depth = Some 1\<rparr>,
      2 \<mapsto> \<lparr>node_id = Some ''C'', u_collapsed = Some False, children = Some [3],
             u_children = Some [3], depth = Some 1\<rparr>,
      3 \<mapsto> \<lparr>node_id = Some ''D'', u_collapsed = Some False, children = None,
             u_children = None, depth = Some 2\<rparr>]"

text \<open>The example tree with A and C collapsed and a layout made: D is hidden.\<close>

definition collapsed_example :: store where
  "collapsed_example =
     [0 \<mapsto> \<lparr>node_id = Some ''A'', u_collapsed = Some True, children = None,
             u_children = Some [1, 2], depth = Some 0\<rparr>,
      1 \<mapsto> \<lparr>node_id = Some ''B'', u_collapsed = Some False, children = None,
             u_children = None, depth = Some 1\<rparr>,
      2 \<mapsto> \<lparr>node_id = Some ''C'', u_collapsed = Some True, children = None,
             u_children = Some [3], depth = Some 1\<rparr>,
      3 \<mapsto> \<lparr>node_id = Some ''D'', u_collapsed = Some False, children = None,
             u_children = None, depth = Some 2\<rparr>]"

text \<open>
  The input data \<^verbatim>\<open>{name: "A", _collapsed: true, children: [{name: "B"}]}\<close> before
  \<^verbatim>\<open>assignInternalProperties\<close>.
\<close>

definition raw_hidden_child :: store where
  "raw_hidden_child =
     [0 \<mapsto> \<lparr>node_id = None, u_collapsed = Some True, children = Some [1],
             u_children = None, depth = None\<rparr>,
      1 \<mapsto> \<lparr>node_id = None, u_collapsed = None, children = None,
             u_children = None, depth = None\<rparr>]"

text \<open>
  A root marked \<^verbatim>\<open>_collapsed: true\<close> in the input data, with one child: the first
  layout reaches the root only, so the child has no \<^verbatim>\<open>depth\<close>.
\<close>

definition hidden_child_store :: store where
  "hidden_child_store =
     [0 \<mapsto> \<lparr>node_id = Some ''A'', u_collapsed = Some True, children = None,
             u_children = Some [1], depth = Some 0\<rparr>,
      1 \<mapsto> \<lparr>node_id = Some ''B'', u_collapsed = Some False, children = None,
             u_children = None, depth = None\<rparr>]"

text \<open>Raw input data: a root without a flag and two leaves with explicit flags.\<close>

definition raw_example :: store where
  "raw_example =
     [0 \<mapsto> \<lparr>node_id = None, u_collapsed = None, children = Some [1, 2],
             u_children = None, depth = None\<rparr>,
      1 \<mapsto> \<lparr>node_id = None, u_collapsed = Some True, children = None,
             u_children = None, depth = None\<rparr>,
      2 \<mapsto> \<lparr>node_id = None, u_collapsed = Some False, children = None,
             u_children = None, depth = None\<rparr>]"

text \<open>
  The input data
  \<^verbatim>\<open>{name: "A", _collapsed: true, children: [{name: "B", children: [{name: "C"}]}]}\<close>
  before \<^verbatim>\<open>assignInternalProperties\<close>.
\<close>

definition raw_chain :: store where
  "raw_chain =
     [0 \<mapsto> \<lparr>node_id = None, u_collapsed = Some True, children = Some [1],
             u_children = None, depth = None\<rparr>,
      1 \<mapsto> \<lparr>node_id = None, u_collapsed = None, children = Some [2],
             u_children = None, depth = None\<rparr>,
      2 \<mapsto> \<lparr>node_id = None, u_collapsed = None, children = None,
             u_children = None, depth = None\<rparr>]"

text \<open>
  A chain A, B, C (addresses 0, 1, 2) after \<^verbatim>\<open>assignInternalProperties\<close>, where the input
  data marked A as collapsed.
\<close>

definition chain_store :: store where
  "chain_store =
     [0 \<mapsto> \<lparr>node_id = Some ''A'', u_collapsed = Some True, children = Some [1],
             u_children = Some [1], depth = None\<rparr>,
      1 \<mapsto> \<lparr>node_id = Some ''B'', u_collapsed = Some False, children = Some [2],
             u_children = Some [2], depth = None\<rparr>,
      2 \<mapsto> \<lparr>node_id = Some ''C'', u_collapsed = Some False, children = None,
             u_children = None, depth = None\<rparr>]"

subsection \<open>Components\<close>

text \<open>
  Props with the input data \<open>raw_example\<close>, \<^verbatim>\<open>initialDepth = 1\<close>,
  \<^verbatim>\<open>useCollapseData = false\<close> and the defaults otherwise.
\<close>

definition example_props :: props where
  "example_props =
     \<lparr>zoom = 1, scaleExtent = \<lparr>ext_min = 1/10, ext_max = 1\<rparr>, p_translate = \<lparr>px = 0, py = 0\<rparr>,
      data_ref = 0, p_data = Single 0, p_heap = raw_example, collapsible = True,
      shouldCollapseNeighborNodes = False, useCollapseData = False, initialDepth = Some 1,
      transitionDuration = 500, onUpdate = True, onClick = False\<rparr>"

text \<open>A component before its first render, and after it was mounted.\<close>

definition fresh_component :: "store \<Rightarrow> component" where
  "fresh_component s =
     \<lparr>this_props = example_props, store = s, dataRef = 0, data = [0],
      d3 = calculateD3Geometry example_props, isTransitioning = False, initialRender = True,
      targetNode = None, uuids = 0, timers = [], onUpdateCalls = [], onClickCalls = [],
      dataCommits = 0, layoutPasses = 0\<rparr>"

definition mounted_component :: "store \<Rightarrow> component" where
  "mounted_component s = (fresh_component s)\<lparr>initialRender := False\<rparr>"

section \<open>Auxiliary lemmas\<close>

subsection \<open>Loops over arrays\<close>

lemma forEach_invariant:
  assumes "forEach f xs s = Inr s'" and "P s"
    and "\<And>t y t'. y \<in> set xs \<Longrightarrow> P t \<Longrightarrow> f t y = Inr t' \<Longrightarrow> P t'"
  shows "P s'"
  using assms
proof (induction xs arbitrary: s)
  case Nil
  then show ?case by simp
next
  case (Cons v vs)
  from Cons.prems(1) obtain t where t: "f s v = Inr t" and r: "forEach f vs t = Inr s'"
    by (auto split: sum.splits)
  have "P t" using Cons.prems(2,3) t by auto
  then show ?case using Cons.IH [OF r] Cons.prems(3) by auto
qed

lemma forEach_total:
  assumes "P s"
    and "\<And>t y. y \<in> set xs \<Longrightarrow> P t \<Longrightarrow> \<exists>t'. f t y = Inr t' \<and> P t'"
  shows "\<exists>s'. forEach f xs s = Inr s' \<and> P s'"
  using assms
proof (induction xs arbitrary: s)
  case Nil
  then show ?case by simp
next
  case (Cons v vs)
  from Cons.prems obtain t where t: "f s v = Inr t" "P t" by fastforce
  from Cons.IH [OF t(2)] Cons.prems(2) obtain s' where "forEach f vs t = Inr s'" "P s'"
    by auto
  then show ?case using t by auto
qed

lemma forEach_element:
  assumes "forEach f xs s = Inr s'" and "v \<in> set xs"
    and step: "\<And>t y t'. y \<in> set xs \<Longrightarrow> f t y = Inr t' \<Longrightarrow> R t t'"
    and refl: "\<And>t. R t t" and trans: "\<And>t u w. R t u \<Longrightarrow> R u w \<Longrightarrow> R t w"
  shows "\<exists>t t'. R s t \<and> f t v = Inr t' \<and> R t' s'"
  using assms(1,2,3)
proof (induction xs arbitrary: s)
  case Nil
  then show ?case by simp
next
  case (Cons w ws)
  from Cons.prems(1) obtain u where u: "f s w = Inr u" and r: "forEach f ws u = Inr s'"
    by (auto split: sum.splits)
  have su: "R s u" using Cons.prems(3) u by auto
  have us': "R u s'"
  proof (rule forEach_invariant [OF r, where P = "R u"])
    show "R u u" by (rule refl)
  next
    fix t y t' assume "y \<in> set ws" "R u t" "f t y = Inr t'"
    then have "R t t'" using Cons.prems(3) by auto
    with \<open>R u t\<close> show "R u t'" by (rule trans)
  qed
  show ?case
  proof (cases "v = w")
    case True
    then show ?thesis using u us' refl by blast
  next
    case False
    then have "v \<in> set ws" using Cons.prems(2) by simp
    have "\<exists>t t'. R u t \<and> f t v = Inr t' \<and> R t' s'"
    proof (rule Cons.IH [OF r \<open>v \<in> set ws\<close>])
      fix t y t' assume "y \<in> set ws" "f t y = Inr t'"
      then show "R t t'" using Cons.prems(3) by auto
    qed
    then obtain t t' where "R u t" "f t v = Inr t'" "R t' s'"
      by blast
    then show ?thesis using su trans by blast
  qed
qed

subsection \<open>Stores that differ in flags\<close>

lemma mark_simps [simp]:
  "mark (mark n) = mark n" "u_children (mark n) = u_children n"
  "u_collapsed (mark n) = Some True"
  by (simp_all add: mark_def)

lemma collapsed_more_refl: "collapsed_more s s"
  by (simp add: collapsed_more_def)

lemma collapsed_more_trans:
  assumes "collapsed_more s t" "collapsed_more t u" shows "collapsed_more s u"
  unfolding collapsed_more_def
proof
  fix b
  from assms have "t b = s b \<or> t b = map_option mark (s b)"
    and "u b = t b \<or> u b = map_option mark (t b)"
    by (auto simp: collapsed_more_def)
  then show "u b = s b \<or> u b = map_option mark (s b)"
    by (cases "s b") auto
qed

lemma collapsed_more_upd:
  "s a = Some n \<Longrightarrow> collapsed_more s (s(a \<mapsto> n\<lparr>u_collapsed := Some True\<rparr>))"
  by (simp add: collapsed_more_def mark_def)

lemma collapseNode_more: "collapseNode k s a = Inr s' \<Longrightarrow> collapsed_more s s'"
proof (induction k arbitrary: s a s')
  case 0
  then show ?case by simp
next
  case (Suc k)
  from Suc.prems obtain n where n: "s a = Some n" by (auto split: option.splits)
  let ?s1 = "s(a \<mapsto> n\<lparr>u_collapsed := Some True\<rparr>)"
  have s1: "collapsed_more s ?s1" using n by (rule collapsed_more_upd)
  show ?case
  proof (cases "\<exists>cs. u_children n = Some cs \<and> length cs > 0")
    case True
    then obtain cs where cs: "u_children n = Some cs" "length cs > 0" by auto
    with Suc.prems n have fe: "forEach (collapseNode k) cs ?s1 = Inr s'" by (simp add: Let_def)
    show ?thesis
      by (rule forEach_invariant [OF fe, where P = "collapsed_more s"])
         (auto intro: s1 collapsed_more_trans dest: Suc.IH)
  next
    case False
    with Suc.prems n have "s' = ?s1" by (auto simp: Let_def split: option.splits if_splits)
    then show ?thesis using s1 by (simp only:)
  qed
qed

lemma flags_only_refl: "flags_only s s"
  by (simp add: flags_only_def)

lemma flags_only_trans:
  assumes "flags_only s t" "flags_only t u" shows "flags_only s u"
  unfolding flags_only_def
proof
  fix b
  from assms have 1: "t b = s b \<or> (\<exists>n v. s b = Some n \<and> t b = Some (n\<lparr>u_collapsed := v\<rparr>))"
    and 2: "u b = t b \<or> (\<exists>n v. t b = Some n \<and> u b = Some (n\<lparr>u_collapsed := v\<rparr>))"
    by (auto simp: flags_only_def)
  from 1 show "u b = s b \<or> (\<exists>n v. s b = Some n \<and> u b = Some (n\<lparr>u_collapsed := v\<rparr>))"
  proof
    assume "t b = s b"
    with 2 show ?thesis by simp
  next
    assume "\<exists>n v. s b = Some n \<and> t b = Some (n\<lparr>u_collapsed := v\<rparr>)"
    then obtain n v where n: "s b = Some n" "t b = Some (n\<lparr>u_collapsed := v\<rparr>)" by blast
    from 2 show ?thesis
    proof
      assume "u b = t b"
      with n show ?thesis by auto
    next
      assume "\<exists>m w. t b = Some m \<and> u b = Some (m\<lparr>u_collapsed := w\<rparr>)"
      then obtain w where "u b = Some (n\<lparr>u_collapsed := v, u_collapsed := w\<rparr>)" using n by auto
      then have "u b = Some (n\<lparr>u_collapsed := w\<rparr>)" by simp
      with n show ?thesis by blast
    qed
  qed
qed

lemma flags_only_upd: "s a = Some n \<Longrightarrow> flags_only s (s(a \<mapsto> n\<lparr>u_collapsed := v\<rparr>))"
  by (auto simp: flags_only_def)

lemma collapsed_more_flags: "collapsed_more s s' \<Longrightarrow> flags_only s s'"
  unfolding collapsed_more_def flags_only_def mark_def
proof
  fix b
  assume "\<forall>b. s' b = s b \<or> s' b = map_option (\<lambda>n. n\<lparr>u_collapsed := Some True\<rparr>) (s b)"
  then have "s' b = s b \<or> s' b = map_option (\<lambda>n. n\<lparr>u_collapsed := Some True\<rparr>) (s b)" ..
  then show "s' b = s b \<or> (\<exists>n v. s b = Some n \<and> s' b = Some (n\<lparr>u_collapsed := v\<rparr>))"
    by (cases "s b") auto
qed

lemma flags_only_fields:
  assumes "flags_only s s'" and "s b = Some n"
  shows "\<exists>n'. s' b = Some n' \<and> node_id n' = node_id n \<and> children n' = children n
           \<and> u_children n' = u_children n \<and> depth n' = depth n"
proof -
  from assms(1) have "s' b = s b \<or> (\<exists>n v. s b = Some n \<and> s' b = Some (n\<lparr>u_collapsed := v\<rparr>))"
    by (simp add: flags_only_def)
  with assms(2) show ?thesis by auto
qed

lemma flags_only_kids: "flags_only s s' \<Longrightarrow> kids_by u_children s' a = kids_by u_children s a"
  unfolding flags_only_def kids_by_def
  by (erule allE [of _ a]) (cases "s a"; auto)

lemma flags_only_dom: "flags_only s s' \<Longrightarrow> (s' a = None) = (s a = None)"
  unfolding flags_only_def by (erule allE [of _ a]) (cases "s a"; auto)

lemma flags_only_tree_within:
  "flags_only s s' \<Longrightarrow> tree_within u_children k s' as = tree_within u_children k s as"
  by (induction k arbitrary: as) (simp_all add: flags_only_kids flags_only_dom)

lemma flags_only_child_rel:
  "flags_only s s' \<Longrightarrow> child_rel u_children s' = child_rel u_children s"
  by (simp add: child_rel_def flags_only_kids)

lemmas collapsed_more_tree_within = flags_only_tree_within [OF collapsed_more_flags]

lemmas collapsed_more_child_rel = flags_only_child_rel [OF collapsed_more_flags]

lemma collapsed_more_keeps:
  "collapsed_more s s' \<Longrightarrow> s b = Some m \<Longrightarrow> u_collapsed m = Some True
     \<Longrightarrow> \<exists>m'. s' b = Some m' \<and> u_collapsed m' = Some True"
  unfolding collapsed_more_def by (erule allE [of _ b]) auto

subsection \<open>collapseNode\<close>

lemma tree_within_member:
  "tree_within sel k s as \<Longrightarrow> a \<in> set as \<Longrightarrow> tree_within sel k s [a]"
  by (cases k) (auto simp: list_all_iff)

lemma collapseNode_total:
  "tree_within u_children k s [a] \<Longrightarrow> \<exists>s'. collapseNode k s a = Inr s'"
proof (induction k arbitrary: s a)
  case 0
  then show ?case by simp
next
  case (Suc k)
  from Suc.prems obtain n where n: "s a = Some n" by auto
  let ?s1 = "s(a \<mapsto> n\<lparr>u_collapsed := Some True\<rparr>)"
  have s1: "collapsed_more s ?s1" using n by (rule collapsed_more_upd)
  show ?case
  proof (cases "\<exists>cs. u_children n = Some cs \<and> length cs > 0")
    case True
    then obtain cs where cs: "u_children n = Some cs" "length cs > 0" by auto
    then have "kids_by u_children s a = cs" using n by (simp add: kids_by_def)
    with Suc.prems cs have w: "tree_within u_children k s cs" by auto
    have "\<exists>s'. forEach (collapseNode k) cs ?s1 = Inr s' \<and> collapsed_more s s'"
    proof (rule forEach_total [where P = "collapsed_more s"])
      show "collapsed_more s ?s1" by (rule s1)
    next
      fix t c assume c: "c \<in> set cs" and t: "collapsed_more s t"
      from w c have "tree_within u_children k s [c]" by (rule tree_within_member)
      then have "tree_within u_children k t [c]" using t by (simp add: collapsed_more_tree_within)
      from Suc.IH [OF this] obtain t' where t': "collapseNode k t c = Inr t'" by auto
      then have "collapsed_more t t'" by (rule collapseNode_more)
      with t t' show "\<exists>t'. collapseNode k t c = Inr t' \<and> collapsed_more s t'"
        by (auto intro: collapsed_more_trans)
    qed
    then show ?thesis using n cs by (auto simp: Let_def)
  next
    case False
    then show ?thesis using n by (auto simp: Let_def split: option.splits)
  qed
qed

lemma collapseNode_reaches:
  "collapseNode k s a = Inr s' \<Longrightarrow> (a, b) \<in> (child_rel u_children s)\<^sup>*
     \<Longrightarrow> \<exists>m. s' b = Some m \<and> u_collapsed m = Some True"
proof (induction k arbitrary: s a s')
  case 0
  then show ?case by simp
next
  case (Suc k)
  from Suc.prems(1) obtain n where n: "s a = Some n" by (auto split: option.splits)
  let ?s1 = "s(a \<mapsto> n\<lparr>u_collapsed := Some True\<rparr>)"
  have s1: "collapsed_more s ?s1" using n by (rule collapsed_more_upd)
  have s1s': "collapsed_more ?s1 s'"
  proof (cases "\<exists>cs. u_children n = Some cs \<and> length cs > 0")
    case True
    then obtain cs where cs: "u_children n = Some cs" "length cs > 0" by auto
    with Suc.prems n have fe: "forEach (collapseNode k) cs ?s1 = Inr s'" by (simp add: Let_def)
    show ?thesis
      by (rule forEach_invariant [OF fe, where P = "collapsed_more ?s1"])
         (auto intro: collapsed_more_refl collapsed_more_trans dest: collapseNode_more)
  next
    case False
    with Suc.prems n have "s' = ?s1" by (auto simp: Let_def split: option.splits if_splits)
    then show ?thesis using collapsed_more_refl [of ?s1] by (simp only:)
  qed
  from Suc.prems(2) show ?case
  proof (cases rule: converse_rtranclE)
    case base
    have "?s1 a = Some (n\<lparr>u_collapsed := Some True\<rparr>)" by simp
    from collapsed_more_keeps [OF s1s' this] show ?thesis using base by simp
  next
    case (step c)
    from step(1) have c: "c \<in> set (kids_by u_children s a)" by (simp add: child_rel_def)
    then have "\<exists>cs. u_children n = Some cs \<and> c \<in> set cs"
      using n by (cases "u_children n") (auto simp: kids_by_def)
    then obtain cs where cs0: "u_children n = Some cs" "c \<in> set cs" by blast
    then have cs: "u_children n = Some cs" "length cs > 0" "c \<in> set cs" by auto
    with Suc.prems n have fe: "forEach (collapseNode k) cs ?s1 = Inr s'" by (simp add: Let_def)
    from forEach_element [OF fe cs(3), where R = collapsed_more]
    obtain t t' where t: "collapsed_more ?s1 t" "collapseNode k t c = Inr t'" "collapsed_more t' s'"
      by (auto intro: collapsed_more_refl collapsed_more_trans dest: collapseNode_more)
    have "collapsed_more s t" using s1 t(1) by (rule collapsed_more_trans)
    then have "child_rel u_children t = child_rel u_children s" by (rule collapsed_more_child_rel)
    with step(2) have "(c, b) \<in> (child_rel u_children t)\<^sup>*" by simp
    from Suc.IH [OF t(2) this] obtain m where "t' b = Some m" "u_collapsed m = Some True" by auto
    from collapsed_more_keeps [OF t(3) this] show ?thesis .
  qed
qed

subsection \<open>Finite trees\<close>

lemma tree_within_Suc: "tree_within sel k s as \<Longrightarrow> tree_within sel (Suc k) s as"
proof (induction k arbitrary: as)
  case 0
  then show ?case by simp
next
  case (Suc k)
  have "list_all (\<lambda>a. s a \<noteq> None \<and>
          (kids_by sel s a = [] \<or> tree_within sel (Suc k) s (kids_by sel s a))) as"
    unfolding list_all_iff
  proof
    fix a assume "a \<in> set as"
    with Suc.prems have "s a \<noteq> None"
      and "kids_by sel s a = [] \<or> tree_within sel k s (kids_by sel s a)"
      by (auto simp: list_all_iff)
    then show "s a \<noteq> None \<and>
        (kids_by sel s a = [] \<or> tree_within sel (Suc k) s (kids_by sel s a))"
      using Suc.IH by blast
  qed
  then show ?case by simp
qed

lemma tree_within_child:
  assumes "tree_within sel k s [a]" and "(a, c) \<in> child_rel sel s"
  shows "tree_within sel k s [c]"
proof (cases k)
  case 0
  with assms show ?thesis by simp
next
  case (Suc j)
  from assms(2) have c: "c \<in> set (kids_by sel s a)" by (simp add: child_rel_def)
  then have "kids_by sel s a \<noteq> []" by auto
  with assms(1) Suc have "tree_within sel j s (kids_by sel s a)" by simp
  then have "tree_within sel j s [c]" using c by (rule tree_within_member)
  then show ?thesis unfolding Suc by (rule tree_within_Suc)
qed

lemma tree_within_descendant:
  assumes "(a, b) \<in> (child_rel sel s)\<^sup>*" and "tree_within sel k s [a]"
  shows "tree_within sel k s [b]"
  using assms by (induction rule: rtrancl_induct) (auto intro: tree_within_child)

subsection \<open>The example tree\<close>

lemma example_rel: "child_rel u_children example_store = {(0, 1), (0, 2), (2, 3)}"
  by (auto simp: child_rel_def kids_by_def example_store_def split: if_splits)

lemma tree_within_defined: "tree_within sel k s [a] \<Longrightarrow> \<exists>n. s a = Some n"
  by (cases k) auto

subsection \<open>Sequences of calls\<close>

lemma run_call_flags: "run_call k s c = Inr s' \<Longrightarrow> flags_only s s'"
proof (cases c)
  case (Collapse a)
  assume "run_call k s c = Inr s'"
  with Collapse show ?thesis by (auto dest: collapseNode_more collapsed_more_flags)
next
  case (Expand a)
  assume "run_call k s c = Inr s'"
  with Expand show ?thesis
    by (auto simp: expandNode_def split: option.splits intro: flags_only_upd)
qed

lemma run_call_total:
  assumes "tree_within u_children k s [target c]"
  shows "\<exists>s'. run_call k s c = Inr s'"
proof (cases c)
  case (Collapse a)
  with assms show ?thesis by (simp add: collapseNode_total)
next
  case (Expand a)
  with tree_within_defined [OF assms] show ?thesis by (auto simp: expandNode_def)
qed

subsection \<open>The searches\<close>

lemma filterNodes_defined:
  "\<forall>a \<in> set ns. s a \<noteq> None \<Longrightarrow>
     filterNodes s p ns = Inr (filter (\<lambda>a. case s a of None \<Rightarrow> False | Some n \<Rightarrow> p n) ns)"
  by (simp add: filterNodes_def list_all_iff)

lemma tree_within_SucD:
  "tree_within sel (Suc k) s as \<Longrightarrow> a \<in> set as \<Longrightarrow>
     s a \<noteq> None \<and> (kids_by sel s a = [] \<or> tree_within sel k s (kids_by sel s a))"
  by (simp add: list_all_iff)

lemma walk_order_Nil [simp]: "walk_order k s [] = []"
  by (cases k) simp_all

lemma all_nodes_Nil [simp]: "all_nodes k s [] = []"
  by (cases k) simp_all

lemma level_nodes_Nil [simp]: "level_nodes s d [] = []"
  by (cases d) simp_all

text \<open>One step of the loop of \<^verbatim>\<open>findNodesAtDepth\<close> over the elements of an array.\<close>

lemma findNodesAtDepth_walk:
  "tree_within u_children k s ns \<Longrightarrow>
     findNodesAtDepth k s d ns acc = Inr (acc @ filter (has_depth s d) (walk_order k s ns))"
proof (induction k arbitrary: ns acc)
  case 0
  then show ?case by simp
next
  case (Suc k)
  let ?body = "\<lambda>accumulator a.
               case s a of None \<Rightarrow> Inl TypeError
               | Some n \<Rightarrow>
                   (case u_children n of
                      None \<Rightarrow> Inr accumulator
                    | Some cs \<Rightarrow>
                        if length cs > 0 then findNodesAtDepth k s d cs accumulator
                        else Inr accumulator)"
  have body: "?body acc' a = Inr (acc' @ filter (has_depth s d) (walk_order k s (kids_by u_children s a)))"
    if "a \<in> set ns" for a acc'
  proof -
    from tree_within_SucD [OF Suc.prems that] obtain n where n: "s a = Some n"
      and w: "kids_by u_children s a = [] \<or> tree_within u_children k s (kids_by u_children s a)"
      by auto
    show ?thesis
    proof (cases "u_children n")
      case None
      then show ?thesis using n by (simp add: kids_by_def)
    next
      case (Some cs)
      then have k: "kids_by u_children s a = cs" using n by (simp add: kids_by_def)
      show ?thesis
      proof (cases "cs = []")
        case True
        then show ?thesis using n Some k by simp
      next
        case False
        with w k have "tree_within u_children k s cs" by simp
        from Suc.IH [OF this] show ?thesis using n Some k False by simp
      qed
    qed
  qed
  have loop: "set xs \<subseteq> set ns \<Longrightarrow> forEach ?body xs acc' =
      Inr (acc' @ concat (map (\<lambda>a. filter (has_depth s d) (walk_order k s (kids_by u_children s a))) xs))"
    for xs acc'
  proof (induction xs arbitrary: acc')
    case Nil
    then show ?case by simp
  next
    case (Cons a xs)
    then have "a \<in> set ns" "set xs \<subseteq> set ns" by auto
    then show ?case using body [of a acc'] Cons.IH by simp
  qed
  have defined: "\<forall>a \<in> set ns. s a \<noteq> None" using Suc.prems by (simp add: list_all_iff)
  have "filterNodes s (\<lambda>n. depth n = d) ns = Inr (filter (has_depth s d) ns)"
    unfolding has_depth_def by (rule filterNodes_defined [OF defined])
  then show ?case
    using loop [of ns "acc @ filter (has_depth s d) ns"]
    by (simp add: filter_concat comp_def)
qed



text \<open>\<^verbatim>\<open>findNodesById\<close> on a tree: the result is made of nodes that bear the id.\<close>

lemma subseq_heads: "subseq ns (concat (map (\<lambda>a. a # f a) ns))"
  by (induction ns) auto

lemma subseq_tails: "subseq (concat (map f ns)) (concat (map (\<lambda>a. a # f a) ns))"
proof (induction ns)
  case Nil
  then show ?case by simp
next
  case (Cons a ns)
  have "subseq (f a @ concat (map f ns)) (f a @ concat (map (\<lambda>a. a # f a) ns))"
    using Cons.IH by (simp add: subseq_append')
  then show ?case by auto
qed



lemma findNodesById_subseq:
  "tree_within u_children k s ns \<Longrightarrow>
     \<exists>r. findNodesById k s i ns [] = Inr r
        \<and> subseq r (filter (has_id s i) (all_nodes k s ns))
        \<and> (r = [] \<longrightarrow> filter (has_id s i) (all_nodes k s ns) = [])"
proof (induction k arbitrary: ns)
  case 0
  then show ?case by simp
next
  case (Suc k)
  let ?P = "has_id s i"
  let ?kids = "kids_by u_children s"
  let ?body = "\<lambda>hits a.
                 case s a of None \<Rightarrow> Inl TypeError
                 | Some n \<Rightarrow>
                     (case u_children n of
                        None \<Rightarrow> Inr hits
                      | Some cs \<Rightarrow>
                          if length cs > 0 then findNodesById k s i cs hits
                          else Inr hits)"
  have body_full: "?body h a = Inr h" if "a \<in> set ns" "h \<noteq> []" for a h
  proof -
    from tree_within_SucD [OF Suc.prems that(1)] obtain n where n: "s a = Some n"
      and w: "?kids a = [] \<or> tree_within u_children k s (?kids a)" by auto
    show ?thesis
    proof (cases "u_children n")
      case None
      with n show ?thesis by simp
    next
      case (Some cs)
      then have kc: "?kids a = cs" using n by (simp add: kids_by_def)
      show ?thesis
      proof (cases "cs = []")
        case True
        with n Some show ?thesis by simp
      next
        case False
        with w kc have "tree_within u_children k s cs" by simp
        then obtain j where "k = Suc j" by (cases k) auto
        with n Some False that(2) show ?thesis by simp
      qed
    qed
  qed
  have body_empty: "\<exists>r. ?body [] a = Inr r \<and> subseq r (filter ?P (all_nodes k s (?kids a)))
      \<and> (r = [] \<longrightarrow> filter ?P (all_nodes k s (?kids a)) = [])" if "a \<in> set ns" for a
  proof -
    from tree_within_SucD [OF Suc.prems that(1)] obtain n where n: "s a = Some n"
      and w: "?kids a = [] \<or> tree_within u_children k s (?kids a)" by auto
    show ?thesis
    proof (cases "u_children n")
      case None
      with n show ?thesis by (simp add: kids_by_def)
    next
      case (Some cs)
      then have kc: "?kids a = cs" using n by (simp add: kids_by_def)
      show ?thesis
      proof (cases "cs = []")
        case True
        with n Some kc show ?thesis by simp
      next
        case False
        with w kc have "tree_within u_children k s cs" by simp
        from Suc.IH [OF this] show ?thesis using n Some kc False by simp
      qed
    qed
  qed
  have loop: "\<exists>r. forEach ?body xs h = Inr r \<and> (h \<noteq> [] \<longrightarrow> r = h)
      \<and> (h = [] \<longrightarrow> subseq r (filter ?P (concat (map (\<lambda>a. all_nodes k s (?kids a)) xs)))
            \<and> (r = [] \<longrightarrow> filter ?P (concat (map (\<lambda>a. all_nodes k s (?kids a)) xs)) = []))"
    if "set xs \<subseteq> set ns" for xs h
    using that
  proof (induction xs arbitrary: h)
    case Nil
    then show ?case by simp
  next
    case (Cons a xs)
    then have a: "a \<in> set ns" and xs: "set xs \<subseteq> set ns" by auto
    show ?case
    proof (cases "h = []")
      case False
      from Cons.IH [OF xs, of h] False obtain r where "forEach ?body xs h = Inr r" "r = h"
        by auto
      with body_full [OF a False] False show ?thesis by simp
    next
      case True
      note h = this
      from body_empty [OF a] obtain r1 where r1: "?body [] a = Inr r1"
        "subseq r1 (filter ?P (all_nodes k s (?kids a)))"
        "r1 = [] \<longrightarrow> filter ?P (all_nodes k s (?kids a)) = []" by blast
      from Cons.IH [OF xs, of r1] obtain r where r: "forEach ?body xs r1 = Inr r"
        "r1 \<noteq> [] \<longrightarrow> r = r1"
        "r1 = [] \<longrightarrow> subseq r (filter ?P (concat (map (\<lambda>a. all_nodes k s (?kids a)) xs)))
            \<and> (r = [] \<longrightarrow> filter ?P (concat (map (\<lambda>a. all_nodes k s (?kids a)) xs)) = [])"
        by blast
      have res: "forEach ?body (a # xs) h = Inr r" using h r1(1) r(1) by simp
      show ?thesis
      proof (cases "r1 = []")
        case True
        with r1(3) r(3) res h show ?thesis by simp
      next
        case False
        with r(2) have "r = r1" by simp
        with r1(2) have "subseq r (filter ?P (all_nodes k s (?kids a))
            @ filter ?P (concat (map (\<lambda>a. all_nodes k s (?kids a)) xs)))"
          by (simp add: subseq_rev_drop_many)
        with res False \<open>r = r1\<close> h show ?thesis by simp
      qed
    qed
  qed
  have defined: "\<forall>a \<in> set ns. s a \<noteq> None" using Suc.prems by (simp add: list_all_iff)
  have fl: "filterNodes s (\<lambda>n. node_id n = Some i) ns = Inr (filter ?P ns)"
    unfolding has_id_def by (rule filterNodes_defined [OF defined])
  let ?below = "concat (map (\<lambda>a. all_nodes k s (?kids a)) ns)"
  have all: "all_nodes (Suc k) s ns = concat (map (\<lambda>a. a # all_nodes k s (?kids a)) ns)" by simp
  have sub1: "subseq (filter ?P ns) (filter ?P (all_nodes (Suc k) s ns))"
    unfolding all by (rule subseq_filter) (rule subseq_heads)
  have sub2: "subseq (filter ?P ?below) (filter ?P (all_nodes (Suc k) s ns))"
    unfolding all by (rule subseq_filter) (rule subseq_tails)
  have set_all: "set (all_nodes (Suc k) s ns) = set ns \<union> set ?below" by auto
  from loop [of ns "filter ?P ns"] obtain r where r: "forEach ?body ns (filter ?P ns) = Inr r"
    "filter ?P ns \<noteq> [] \<longrightarrow> r = filter ?P ns"
    "filter ?P ns = [] \<longrightarrow> subseq r (filter ?P ?below) \<and> (r = [] \<longrightarrow> filter ?P ?below = [])"
    by blast
  have res: "findNodesById (Suc k) s i ns [] = Inr r" using fl r(1) by simp
  show ?case
  proof (cases "filter ?P ns = []")
    case False
    with r(2) sub1 res show ?thesis by auto
  next
    case True
    with r(3) have s: "subseq r (filter ?P ?below)" and e: "r = [] \<longrightarrow> filter ?P ?below = []"
      by auto
    from s sub2 have "subseq r (filter ?P (all_nodes (Suc k) s ns))" by (rule subseq_order.trans)
    moreover have "filter ?P (all_nodes (Suc k) s ns) = []" if "r = []"
    proof -
      from e that have "filter ?P ?below = []" by simp
      with True have "\<forall>a \<in> set ns \<union> set ?below. \<not> ?P a" by (auto simp: filter_empty_conv)
      then show ?thesis unfolding filter_empty_conv set_all by blast
    qed
    ultimately show ?thesis using res by blast
  qed
qed

subsection \<open>assignInternalProperties\<close>

lemma mapNodes_forEach:
  "mapNodes f xs s = (case forEach f xs s of Inl e \<Rightarrow> Inl e | Inr s' \<Rightarrow> Inr (xs, s'))"
  by (induction xs arbitrary: s) (auto split: sum.splits)

lemma assign_rel_None: "assign_rel s s' \<Longrightarrow> s b = None \<Longrightarrow> s' b = None"
  unfolding assign_rel_def by (erule allE [of _ b]) simp

lemma assign_rel_Some:
  "assign_rel s s' \<Longrightarrow> s b = Some n \<Longrightarrow>
     \<exists>n'. s' b = Some n' \<and> children n' = children n
        \<and> (u_collapsed n' = u_collapsed n \<or> (u_collapsed n = None \<and> u_collapsed n' = Some False))"
  unfolding assign_rel_def by (erule allE [of _ b]) simp

lemma assign_rel_refl: "assign_rel s s"
  by (simp add: assign_rel_def split: option.splits)

lemma assign_rel_trans:
  assumes "assign_rel s t" "assign_rel t u" shows "assign_rel s u"
  unfolding assign_rel_def
proof
  fix b
  show "case s b of
            None \<Rightarrow> u b = None
          | Some n \<Rightarrow>
              (\<exists>n'. u b = Some n' \<and> children n' = children n
                 \<and> (u_collapsed n' = u_collapsed n
                    \<or> (u_collapsed n = None \<and> u_collapsed n' = Some False)))"
  proof (cases "s b")
    case None
    then have "t b = None" using assms(1) by (simp add: assign_rel_None)
    then have "u b = None" using assms(2) by (simp add: assign_rel_None)
    with None show ?thesis by simp
  next
    case (Some n)
    from assign_rel_Some [OF assms(1) Some] obtain n' where n': "t b = Some n'"
      "children n' = children n"
      "u_collapsed n' = u_collapsed n \<or> (u_collapsed n = None \<and> u_collapsed n' = Some False)"
      by blast
    from assign_rel_Some [OF assms(2) n'(1)] obtain n'' where n'': "u b = Some n''"
      "children n'' = children n'"
      "u_collapsed n'' = u_collapsed n' \<or> (u_collapsed n' = None \<and> u_collapsed n'' = Some False)"
      by blast
    from n'(2,3) n''(2,3) have "children n'' = children n
      \<and> (u_collapsed n'' = u_collapsed n \<or> (u_collapsed n = None \<and> u_collapsed n'' = Some False))"
      by auto
    with Some n''(1) show ?thesis by simp
  qed
qed

lemma assign_rel_dom: "assign_rel s s' \<Longrightarrow> (s' a = None) = (s a = None)"
  by (cases "s a") (auto dest: assign_rel_None assign_rel_Some)

lemma assign_rel_kids: "assign_rel s s' \<Longrightarrow> kids_by children s' a = kids_by children s a"
  by (cases "s a") (auto simp: kids_by_def dest: assign_rel_None assign_rel_Some)

lemma assign_rel_tree_within:
  "assign_rel s s' \<Longrightarrow> tree_within children k s' as = tree_within children k s as"
  by (induction k arbitrary: as) (simp_all add: assign_rel_kids assign_rel_dom)

lemma assign_rel_child_rel: "assign_rel s s' \<Longrightarrow> child_rel children s' = child_rel children s"
  by (simp add: child_rel_def assign_rel_kids)

lemma assign_rel_flag:
  assumes "assign_rel s s'" and "collapsed_at s' a = Some v"
  shows "v = or_false (collapsed_at s a)"
proof (cases "s a")
  case None
  with assms show ?thesis by (auto simp: collapsed_at_def dest: assign_rel_None)
next
  case (Some n)
  from assign_rel_Some [OF assms(1) Some] assms(2) Some show ?thesis
    by (auto simp: collapsed_at_def or_false_def)
qed

lemma assign_rel_keeps:
  assumes "assign_rel s s'" and "collapsed_at s a \<noteq> None"
  shows "collapsed_at s' a \<noteq> None"
proof (cases "s a")
  case None
  with assms show ?thesis by (simp add: collapsed_at_def)
next
  case (Some n)
  from assign_rel_Some [OF assms(1) Some] assms(2) Some show ?thesis
    by (auto simp: collapsed_at_def)
qed

lemma assign_rel_upd:
  assumes "s a = Some n" and "children n' = children n"
    and "u_collapsed n' = u_collapsed n \<or> (u_collapsed n = None \<and> u_collapsed n' = Some False)"
  shows "assign_rel s (s(a \<mapsto> n'))"
  using assms by (auto simp: assign_rel_def split: option.splits)

lemma forEach_element_inv:
  assumes "forEach f xs s = Inr s'" and "v \<in> set xs" and "P s"
    and step: "\<And>t y t'. y \<in> set xs \<Longrightarrow> P t \<Longrightarrow> f t y = Inr t' \<Longrightarrow> R t t' \<and> P t'"
    and refl: "\<And>t. R t t" and trans: "\<And>t u w. R t u \<Longrightarrow> R u w \<Longrightarrow> R t w"
  shows "\<exists>t t'. P t \<and> R s t \<and> f t v = Inr t' \<and> R t' s'"
  using assms(1,2,3,4)
proof (induction xs arbitrary: s)
  case Nil
  then show ?case by simp
next
  case (Cons w ws)
  from Cons.prems(1) obtain u where u: "f s w = Inr u" and r: "forEach f ws u = Inr s'"
    by (auto split: sum.splits)
  have su: "R s u \<and> P u" using Cons.prems(3,4) u by auto
  have stepws: "R t t' \<and> P t'" if "y \<in> set ws" "P t" "f t y = Inr t'" for t y t'
    using that Cons.prems(4) by auto
  have "P s' \<and> R u s'"
  proof (rule forEach_invariant [OF r, where P = "\<lambda>t. P t \<and> R u t"])
    show "P u \<and> R u u" using su refl by simp
  next
    fix t y t' assume "y \<in> set ws" "P t \<and> R u t" "f t y = Inr t'"
    with stepws [of y t t'] show "P t' \<and> R u t'" using trans by blast
  qed
  then have us': "R u s'" ..
  show ?case
  proof (cases "v = w")
    case True
    then show ?thesis using u us' refl Cons.prems(3) by blast
  next
    case False
    then have "v \<in> set ws" using Cons.prems(2) by simp
    have "\<exists>t t'. P t \<and> R u t \<and> f t v = Inr t' \<and> R t' s'"
    proof (rule Cons.IH [OF r \<open>v \<in> set ws\<close>])
      show "P u" using su ..
    next
      fix t y t' assume "y \<in> set ws" "P t" "f t y = Inr t'"
      then show "R t t' \<and> P t'" by (rule stepws)
    qed
    then obtain t t' where "P t" "R u t" "f t v = Inr t'" "R t' s'" by blast
    then show ?thesis using su trans by blast
  qed
qed

lemma assign_many:
  "tree_within children k s as \<Longrightarrow>
     \<exists>s' j. assignInternalProperties k uuid (Many as) (s, i) = Inr (as, (s', j))
        \<and> assign_rel s s'
        \<and> (\<forall>a \<in> set as. \<forall>b. (a, b) \<in> (child_rel children s)\<^sup>* \<longrightarrow> collapsed_at s' b \<noteq> None)"
proof (induction k arbitrary: s as i)
  case 0
  then show ?case by simp
next
  case (Suc k)
  let ?body = "\<lambda>(s, i) a.
          case s a of None \<Rightarrow> Inl TypeError
          | Some n \<Rightarrow>
              let n1 = n\<lparr>node_id := Some (uuid i)\<rparr>;
                  n2 = (if u_collapsed n1 = None then n1\<lparr>u_collapsed := Some False\<rparr> else n1);
                  s2 = s(a \<mapsto> n2)
              in (case children n2 of
                    None \<Rightarrow> Inr (s2, Suc i)
                  | Some cs \<Rightarrow>
                      if length cs > 0 then
                        (case assignInternalProperties k uuid (Many cs) (s2, Suc i) of
                           Inl e \<Rightarrow> Inl e
                         | Inr (cs', (s3, j)) \<Rightarrow>
                             (case s3 a of None \<Rightarrow> Inl TypeError
                              | Some n3 \<Rightarrow>
                                  Inr (s3(a \<mapsto> n3\<lparr>children := Some cs', u_children := Some cs'\<rparr>), j)))
                      else Inr (s2, Suc i))"
  let ?R = "\<lambda>(t :: store \<times> nat) (t' :: store \<times> nat). assign_rel (fst t) (fst t')"
  have body: "\<exists>t' j. ?body (t, i) a = Inr (t', j) \<and> assign_rel t t'
      \<and> (\<forall>b. (a, b) \<in> (child_rel children t)\<^sup>* \<longrightarrow> collapsed_at t' b \<noteq> None)"
    if w: "tree_within children (Suc k) t [a]" for t i a
  proof -
    from w obtain n where n: "t a = Some n"
      and wk: "kids_by children t a = [] \<or> tree_within children k t (kids_by children t a)"
      by auto
    define n2 where "n2 = (if u_collapsed n = None
        then n\<lparr>node_id := Some (uuid i), u_collapsed := Some False\<rparr>
        else n\<lparr>node_id := Some (uuid i)\<rparr>)"
    define t2 where "t2 = t(a \<mapsto> n2)"
    have n2c: "children n2 = children n" by (simp add: n2_def)
    have n2f: "u_collapsed n2 \<noteq> None" by (auto simp: n2_def)
    have r2: "assign_rel t t2" unfolding t2_def
      by (rule assign_rel_upd [where n = n]) (auto simp: n n2_def)
    have a2: "collapsed_at t2 a \<noteq> None" using n2f by (simp add: t2_def collapsed_at_def)
    have leaf: "?body (t, i) a = Inr (t2, Suc i)" if "kids_by children t a = []"
    proof (cases "children n")
      case None
      with n show ?thesis by (cases "u_collapsed n") (simp_all add: Let_def n2_def t2_def)
    next
      case (Some cs)
      with that n have "cs = []" by (simp add: kids_by_def)
      with n Some show ?thesis
        by (cases "u_collapsed n") (simp_all add: Let_def n2_def t2_def)
    qed
    have inner: "?body (t, i) a = Inr (t3(a \<mapsto> n3\<lparr>children := Some cs, u_children := Some cs\<rparr>), j)"
      if "children n = Some cs" "cs \<noteq> []"
        "assignInternalProperties k uuid (Many cs) (t2, Suc i) = Inr (cs, (t3, j))"
        "t3 a = Some n3" for cs t3 j n3
      using n that by (cases "u_collapsed n") (simp_all add: Let_def n2_def t2_def)
    show ?thesis
    proof (cases "kids_by children t a = []")
      case True
      then have res: "?body (t, i) a = Inr (t2, Suc i)" by (rule leaf)
      have "collapsed_at t2 b \<noteq> None" if "(a, b) \<in> (child_rel children t)\<^sup>*" for b
        using that
      proof (cases rule: converse_rtranclE)
        case base
        with a2 show ?thesis by simp
      next
        case (step c)
        with True show ?thesis by (simp add: child_rel_def)
      qed
      with res r2 show ?thesis by blast
    next
      case False
      then obtain cs where cs: "children n = Some cs" "cs \<noteq> []" "kids_by children t a = cs"
        using n by (auto simp: kids_by_def split: option.splits)
      from wk False cs have "tree_within children k t cs" by simp
      then have "tree_within children k t2 cs" using r2 by (simp add: assign_rel_tree_within)
      from Suc.IH [OF this, of "Suc i"] obtain t3 j where
        t3: "assignInternalProperties k uuid (Many cs) (t2, Suc i) = Inr (cs, (t3, j))"
        "assign_rel t2 t3"
        "\<forall>c \<in> set cs. \<forall>b. (c, b) \<in> (child_rel children t2)\<^sup>* \<longrightarrow> collapsed_at t3 b \<noteq> None"
        by blast
      have "t2 a = Some n2" by (simp add: t2_def)
      with t3(2) obtain n3 where n3: "t3 a = Some n3" using assign_rel_dom [of t2 t3 a] by auto
      from assign_rel_Some [OF t3(2) \<open>t2 a = Some n2\<close>] n3 n2c cs
      have c3: "children n3 = Some cs" by auto
      define t4 where "t4 = t3(a \<mapsto> n3\<lparr>children := Some cs, u_children := Some cs\<rparr>)"
      have r4: "assign_rel t3 t4" unfolding t4_def
        by (rule assign_rel_upd [where n = n3]) (simp_all add: n3 c3)
      have res: "?body (t, i) a = Inr (t4, j)"
        unfolding t4_def using cs(1,2) t3(1) n3 by (rule inner)
      have r24: "assign_rel t2 t4" using t3(2) r4 by (rule assign_rel_trans)
      have rel2: "child_rel children t2 = child_rel children t"
        using r2 by (rule assign_rel_child_rel)
      have "collapsed_at t4 b \<noteq> None" if "(a, b) \<in> (child_rel children t)\<^sup>*" for b
        using that
      proof (cases rule: converse_rtranclE)
        case base
        with a2 r24 show ?thesis by (auto dest: assign_rel_keeps)
      next
        case (step c)
        then have "c \<in> set cs" using cs by (simp add: child_rel_def)
        with t3(3) step(2) rel2 have "collapsed_at t3 b \<noteq> None" by simp
        with r4 show ?thesis by (rule assign_rel_keeps)
      qed
      moreover have "assign_rel t t4" using r2 r24 by (rule assign_rel_trans)
      ultimately show ?thesis using res by blast
    qed
  qed
  have total: "\<exists>st'. forEach ?body as (s, i) = Inr st' \<and> assign_rel s (fst st')"
  proof (rule forEach_total [where P = "\<lambda>st. assign_rel s (fst st)"])
    show "assign_rel s (fst (s, i))" by (simp add: assign_rel_refl)
  next
    fix st :: "store \<times> nat" and a
    assume a: "a \<in> set as" and st: "assign_rel s (fst st)"
    obtain t j where tj: "st = (t, j)" by (cases st)
    from Suc.prems a have "tree_within children (Suc k) s [a]" by (rule tree_within_member)
    moreover from st tj have "assign_rel s t" by simp
    ultimately have "tree_within children (Suc k) t [a]"
      using assign_rel_tree_within [of s t "Suc k" "[a]"] by blast
    from body [OF this, of j] obtain t' j' where "?body (t, j) a = Inr (t', j')" "assign_rel t t'"
      by blast
    with st tj show "\<exists>st'. ?body st a = Inr st' \<and> assign_rel s (fst st')"
      by (auto intro: assign_rel_trans)
  qed
  then obtain s' j where fe: "forEach ?body as (s, i) = Inr (s', j)" and rel: "assign_rel s s'"
    by (metis fst_conv surj_pair)
  have step: "?R st st' \<and> assign_rel s (fst st')"
    if "a \<in> set as" "assign_rel s (fst st)" "?body st a = Inr st'" for st st' a
  proof -
    obtain t j where tj: "st = (t, j)" by (cases st)
    from Suc.prems that(1) have "tree_within children (Suc k) s [a]" by (rule tree_within_member)
    moreover from that(2) tj have st: "assign_rel s t" by simp
    ultimately have "tree_within children (Suc k) t [a]"
      using assign_rel_tree_within [of s t "Suc k" "[a]"] by blast
    from body [OF this, of j] obtain t' j' where "?body (t, j) a = Inr (t', j')" "assign_rel t t'"
      by blast
    with that(3) tj st show ?thesis by (auto intro: assign_rel_trans)
  qed
  have flagged: "collapsed_at s' b \<noteq> None"
    if a: "a \<in> set as" and b: "(a, b) \<in> (child_rel children s)\<^sup>*" for a b
  proof -
    have "\<exists>st st'. assign_rel s (fst st) \<and> ?R (s, i) st \<and> ?body st a = Inr st' \<and> ?R st' (s', j)"
    proof (rule forEach_element_inv [OF fe a, where P = "\<lambda>st. assign_rel s (fst st)" and R = ?R])
      show "assign_rel s (fst (s, i))" by (simp add: assign_rel_refl)
    next
      fix st y st' assume "y \<in> set as" "assign_rel s (fst st)" "?body st y = Inr st'"
      then show "?R st st' \<and> assign_rel s (fst st')" by (rule step)
    next
      fix st show "?R st st" by (simp add: assign_rel_refl split: prod.splits)
    next
      fix st u w assume "?R st u" "?R u w"
      then show "?R st w" by (auto intro: assign_rel_trans split: prod.splits)
    qed
    then obtain t l t' l' where m: "assign_rel s t" "?body (t, l) a = Inr (t', l')" "assign_rel t' s'"
      by auto
    from Suc.prems a have "tree_within children (Suc k) s [a]" by (rule tree_within_member)
    with m(1) have "tree_within children (Suc k) t [a]"
      using assign_rel_tree_within [of s t "Suc k" "[a]"] by blast
    from body [OF this, of l] m(2) have "\<forall>b. (a, b) \<in> (child_rel children t)\<^sup>* \<longrightarrow> collapsed_at t' b \<noteq> None"
      by auto
    moreover have "child_rel children t = child_rel children s"
      using m(1) by (rule assign_rel_child_rel)
    ultimately have "collapsed_at t' b \<noteq> None" using b by simp
    with m(3) show ?thesis by (rule assign_rel_keeps)
  qed
  have "assignInternalProperties (Suc k) uuid (Many as) (s, i) = Inr (as, (s', j))"
    using fe by (simp add: mapNodes_forEach)
  with rel flagged show ?case by blast
qed

lemma assign_Single:
  "assignInternalProperties k uuid (Single a) st = assignInternalProperties k uuid (Many [a]) st"
  by (cases k) simp_all

subsection \<open>The layout\<close>

lemma layout_only_cases:
  assumes "layout_only s s'"
  obtains "s' b = s b"
  | n c d where "s b = Some n" "s' b = Some (n\<lparr>children := c, depth := Some d\<rparr>)"
  using assms unfolding layout_only_def by blast

lemma layout_only_trans:
  assumes "layout_only s t" "layout_only t u" shows "layout_only s u"
  unfolding layout_only_def
proof
  fix b
  from assms(1) have 1: "t b = s b
      \<or> (\<exists>n c d. s b = Some n \<and> t b = Some (n\<lparr>children := c, depth := Some d\<rparr>))"
    by (simp add: layout_only_def)
  from assms(2) have 2: "u b = t b
      \<or> (\<exists>n c d. t b = Some n \<and> u b = Some (n\<lparr>children := c, depth := Some d\<rparr>))"
    by (simp add: layout_only_def)
  from 1 show "u b = s b \<or> (\<exists>n c d. s b = Some n \<and> u b = Some (n\<lparr>children := c, depth := Some d\<rparr>))"
  proof
    assume "t b = s b"
    with 2 show ?thesis by simp
  next
    assume "\<exists>n c d. s b = Some n \<and> t b = Some (n\<lparr>children := c, depth := Some d\<rparr>)"
    then obtain n c d where n: "s b = Some n" "t b = Some (n\<lparr>children := c, depth := Some d\<rparr>)"
      by blast
    from 2 show ?thesis
    proof
      assume "u b = t b"
      with n show ?thesis by auto
    next
      assume "\<exists>m c' d'. t b = Some m \<and> u b = Some (m\<lparr>children := c', depth := Some d'\<rparr>)"
      then obtain c' d' where "u b = Some (n\<lparr>children := c, depth := Some d,
          children := c', depth := Some d'\<rparr>)" using n by auto
      then have "u b = Some (n\<lparr>children := c', depth := Some d'\<rparr>)" by simp
      with n show ?thesis by blast
    qed
  qed
qed

lemma layout_only_upd:
  "s a = Some n \<Longrightarrow> layout_only s (s(a \<mapsto> n\<lparr>children := c, depth := Some d\<rparr>))"
  by (auto simp: layout_only_def)

lemma layout_only_dom: "layout_only s s' \<Longrightarrow> (s' a = None) = (s a = None)"
  by (erule layout_only_cases [of s s' a]) auto

lemma layout_only_kids: "layout_only s s' \<Longrightarrow> kids_by u_children s' a = kids_by u_children s a"
  by (erule layout_only_cases [of s s' a]) (auto simp: kids_by_def)

lemma layout_only_tree_within:
  "layout_only s s' \<Longrightarrow> tree_within u_children k s' as = tree_within u_children k s as"
  by (induction k arbitrary: as) (simp_all add: layout_only_kids layout_only_dom)

lemma layout_only_collapsed: "layout_only s s' \<Longrightarrow> collapsed_at s' a = collapsed_at s a"
  by (erule layout_only_cases [of s s' a]) (auto simp: collapsed_at_def)

lemma layout_only_depth:
  "layout_only s s' \<Longrightarrow> depth_at s a \<noteq> None \<Longrightarrow> depth_at s' a \<noteq> None"
  by (erule layout_only_cases [of s s' a]) (auto simp: depth_at_def)

lemma childrenAccessor_sub:
  "childrenAccessor n = Some cs \<Longrightarrow> u_children n = Some cs"
  by (simp add: childrenAccessor_def split: if_splits)

text \<open>What a walk of the layout does, if it returns.\<close>

lemma hierarchy_result:
  "hierarchy acc k d (s, ns) a = Inr (s', ns') \<Longrightarrow>
     layout_only s s' \<and> (\<exists>vs. ns' = ns @ vs \<and> (\<forall>v \<in> set vs. depth_at s' v \<noteq> None))"
proof (induction k arbitrary: d s ns a s' ns')
  case 0
  then show ?case by simp
next
  case (Suc k)
  let ?I = "\<lambda>s0 ns0 (st :: store \<times> addr list). layout_only s0 (fst st)
      \<and> (\<exists>vs. snd st = ns0 @ vs \<and> (\<forall>v \<in> set vs. depth_at (fst st) v \<noteq> None))"
  from Suc.prems obtain n where n: "s a = Some n" by (auto split: option.splits)
  have leaf: "layout_only s (s(a \<mapsto> n\<lparr>children := c, depth := Some d\<rparr>))
      \<and> (\<exists>vs. ns @ [a] = ns @ vs
           \<and> (\<forall>v \<in> set vs. depth_at (s(a \<mapsto> n\<lparr>children := c, depth := Some d\<rparr>)) v \<noteq> None))"
    for c
  proof -
    have "\<forall>v \<in> set [a]. depth_at (s(a \<mapsto> n\<lparr>children := c, depth := Some d\<rparr>)) v \<noteq> None"
      by (simp add: depth_at_def)
    then show ?thesis using n layout_only_upd [where s = s and a = a and n = n and c = c and d = d] by blast
  qed
  show ?case
  proof (cases "\<exists>cs. acc n = Some cs \<and> length cs > 0")
    case False
    with Suc.prems n have "s' = s(a \<mapsto> n\<lparr>children := None, depth := Some d\<rparr>)" "ns' = ns @ [a]"
      by (auto split: option.splits if_splits)
    with leaf [of None] show ?thesis by (simp only:)
  next
    case True
    then obtain cs where cs: "acc n = Some cs" "length cs > 0" by blast
    let ?s1 = "s(a \<mapsto> n\<lparr>children := Some cs, depth := Some d\<rparr>)"
    from Suc.prems n cs have fe: "forEach (hierarchy acc k (Suc d)) cs (?s1, ns @ [a]) = Inr (s', ns')"
      by simp
    have "?I s ns (s', ns')"
    proof (rule forEach_invariant [OF fe, where P = "?I s ns"])
      show "?I s ns (?s1, ns @ [a])" using leaf [of "Some cs"] by (simp only: fst_conv snd_conv)
    next
      fix t :: "store \<times> addr list" and y t'
      assume "y \<in> set cs" and t: "?I s ns t" and r: "hierarchy acc k (Suc d) t y = Inr t'"
      obtain t1 n1 where t1: "t = (t1, n1)" by (cases t)
      obtain t2 n2 where t2: "t' = (t2, n2)" by (cases t')
      from Suc.IH [of "Suc d" t1 n1 y t2 n2] r t1 t2
      have l: "layout_only t1 t2" and "\<exists>vs. n2 = n1 @ vs \<and> (\<forall>v \<in> set vs. depth_at t2 v \<noteq> None)"
        by auto
      then obtain vs where vs: "n2 = n1 @ vs" "\<forall>v \<in> set vs. depth_at t2 v \<noteq> None" by blast
      from t t1 obtain us where us: "n1 = ns @ us" "\<forall>v \<in> set us. depth_at t1 v \<noteq> None"
        and st: "layout_only s t1" by auto
      have "depth_at t2 v \<noteq> None" if "v \<in> set (us @ vs)" for v
      proof (cases "v \<in> set vs")
        case True
        with vs(2) show ?thesis by blast
      next
        case False
        with that have "v \<in> set us" by simp
        with us(2) have "depth_at t1 v \<noteq> None" by blast
        with l show ?thesis by (rule layout_only_depth)
      qed
      then have "\<forall>v \<in> set (us @ vs). depth_at t2 v \<noteq> None" by blast
      moreover have "n2 = ns @ (us @ vs)" using us(1) vs(1) by simp
      moreover have "layout_only s t2" using st l by (rule layout_only_trans)
      ultimately show "?I s ns t'" unfolding t2 by (simp del: set_append)
    qed
    then show ?thesis by simp
  qed
qed

lemma hierarchy_total:
  "tree_within u_children k s [a] \<Longrightarrow> \<exists>st'. hierarchy childrenAccessor k d (s, ns) a = Inr st'"
proof (induction k arbitrary: d s ns a)
  case 0
  then show ?case by simp
next
  case (Suc k)
  from Suc.prems obtain n where n: "s a = Some n" by auto
  show ?case
  proof (cases "\<exists>cs. childrenAccessor n = Some cs \<and> length cs > 0")
    case False
    with n show ?thesis by (auto split: option.splits)
  next
    case True
    then obtain cs where cs: "childrenAccessor n = Some cs" "length cs > 0" by blast
    then have "kids_by u_children s a = cs" using n
      by (simp add: kids_by_def childrenAccessor_sub)
    with Suc.prems cs have w: "tree_within u_children k s cs" by auto
    let ?s1 = "s(a \<mapsto> n\<lparr>children := Some cs, depth := Some d\<rparr>)"
    have "\<exists>st'. forEach (hierarchy childrenAccessor k (Suc d)) cs (?s1, ns @ [a]) = Inr st'
        \<and> layout_only s (fst st')"
    proof (rule forEach_total [where P = "\<lambda>st. layout_only s (fst st)"])
      show "layout_only s (fst (?s1, ns @ [a]))" using n by (simp add: layout_only_upd)
    next
      fix t :: "store \<times> addr list" and c
      assume c: "c \<in> set cs" and t: "layout_only s (fst t)"
      obtain t1 n1 where t1: "t = (t1, n1)" by (cases t)
      from w c have "tree_within u_children k s [c]" by (rule tree_within_member)
      with t t1 have "tree_within u_children k t1 [c]" by (simp add: layout_only_tree_within)
      from Suc.IH [OF this, of "Suc d" n1] obtain st' where
        st': "hierarchy childrenAccessor k (Suc d) (t1, n1) c = Inr st'" by blast
      obtain t2 n2 where t2: "st' = (t2, n2)" by (cases st')
      from hierarchy_result [of childrenAccessor k "Suc d" t1 n1 c t2 n2] st' t2
      have "layout_only t1 t2" by simp
      with t t1 have "layout_only s t2" by (auto intro: layout_only_trans)
      with st' t1 t2 show "\<exists>t'. hierarchy childrenAccessor k (Suc d) t c = Inr t'
          \<and> layout_only s (fst t')" by auto
    qed
    with n cs show ?thesis by auto
  qed
qed

lemma tree_nodes_result:
  assumes "tree_within u_children k s [r]"
  shows "\<exists>s' ns. tree_nodes childrenAccessor k s r = Inr (s', ns) \<and> layout_only s s'
           \<and> (\<forall>v \<in> set ns. depth_at s' v \<noteq> None)"
proof -
  from hierarchy_total [OF assms, of 0 "[]"] obtain s' ns where
    r: "hierarchy childrenAccessor k 0 (s, []) r = Inr (s', ns)" by (metis surj_pair)
  from hierarchy_result [OF r] r show ?thesis by (auto simp: tree_nodes_def)
qed

subsection \<open>setInitialTreeDepth\<close>

lemma setInitialTreeDepth_result:
  "\<forall>a \<in> set ns. s a \<noteq> None \<Longrightarrow>
     \<exists>s'. setInitialTreeDepth s ns lo = Inr s'
        \<and> (\<forall>a \<in> set ns. \<exists>n. s a = Some n \<and> s' a = Some (n\<lparr>u_collapsed := Some (depth_ge n lo)\<rparr>))
        \<and> (\<forall>a. a \<notin> set ns \<longrightarrow> s' a = s a)"
proof (induction ns arbitrary: s)
  case Nil
  then show ?case by (simp add: setInitialTreeDepth_def)
next
  case (Cons a ns)
  from Cons.prems obtain n where n: "s a = Some n" by auto
  let ?s1 = "s(a \<mapsto> n\<lparr>u_collapsed := Some (depth_ge n lo)\<rparr>)"
  have "\<forall>b \<in> set ns. ?s1 b \<noteq> None" using Cons.prems by auto
  from Cons.IH [OF this] obtain s' where s': "setInitialTreeDepth ?s1 ns lo = Inr s'"
    "\<forall>b \<in> set ns. \<exists>m. ?s1 b = Some m \<and> s' b = Some (m\<lparr>u_collapsed := Some (depth_ge m lo)\<rparr>)"
    "\<forall>b. b \<notin> set ns \<longrightarrow> s' b = ?s1 b" by blast
  have res: "setInitialTreeDepth s (a # ns) lo = Inr s'"
    using s'(1) n by (simp add: setInitialTreeDepth_def)
  have "\<exists>m. s b = Some m \<and> s' b = Some (m\<lparr>u_collapsed := Some (depth_ge m lo)\<rparr>)"
    if "b \<in> set (a # ns)" for b
  proof (cases "b \<in> set ns")
    case True
    with s'(2) obtain m where m: "?s1 b = Some m"
      "s' b = Some (m\<lparr>u_collapsed := Some (depth_ge m lo)\<rparr>)" by blast
    show ?thesis
    proof (cases "b = a")
      case True
      with m n show ?thesis by (auto simp: depth_ge_def)
    next
      case False
      with m show ?thesis by simp
    qed
  next
    case False
    with that have "b = a" by simp
    with False s'(3) n show ?thesis by simp
  qed
  moreover have "s' b = s b" if "b \<notin> set (a # ns)" for b
    using that s'(3) by simp
  ultimately show ?case using res by blast
qed

subsection \<open>generateTree\<close>

lemma depth_at_defined: "depth_at s a \<noteq> None \<Longrightarrow> s a \<noteq> None"
  by (cases "s a") (auto simp: depth_at_def)

lemma generateTree_first:
  assumes d: "data c = r # rest" and w: "tree_within u_children fuel (store c) [r]"
    and u: "useCollapseData (this_props c) = False" and i: "initialDepth (this_props c) = Some lo"
    and f: "initialRender c"
  shows "\<exists>s1 nodes1 s2 s3 nodes3.
           tree_nodes childrenAccessor fuel (store c) r = Inr (s1, nodes1)
         \<and> layout_only (store c) s1
         \<and> (\<forall>v \<in> set nodes1. depth_at s1 v \<noteq> None)
         \<and> setInitialTreeDepth s1 nodes1 lo = Inr s2
         \<and> (\<forall>a \<in> set nodes1. \<exists>n. s1 a = Some n
                \<and> s2 a = Some (n\<lparr>u_collapsed := Some (depth_ge n lo)\<rparr>))
         \<and> (\<forall>a. a \<notin> set nodes1 \<longrightarrow> s2 a = s1 a)
         \<and> tree_nodes childrenAccessor fuel s2 r = Inr (s3, nodes3)
         \<and> layout_only s2 s3
         \<and> generateTree fuel c
             = Inr (c\<lparr>store := s3, layoutPasses := layoutPasses c + 2\<rparr>, nodes3, tree_links s3 nodes3)"
proof -
  from tree_nodes_result [OF w] obtain s1 nodes1 where
    p1: "tree_nodes childrenAccessor fuel (store c) r = Inr (s1, nodes1)"
    "layout_only (store c) s1" "\<forall>v \<in> set nodes1. depth_at s1 v \<noteq> None" by blast
  have "\<forall>a \<in> set nodes1. s1 a \<noteq> None"
  proof
    fix a assume "a \<in> set nodes1"
    with p1(3) have "depth_at s1 a \<noteq> None" by blast
    then show "s1 a \<noteq> None" by (rule depth_at_defined)
  qed
  from setInitialTreeDepth_result [OF this, of lo] obtain s2 where
    p2: "setInitialTreeDepth s1 nodes1 lo = Inr s2"
    "\<forall>a \<in> set nodes1. \<exists>n. s1 a = Some n \<and> s2 a = Some (n\<lparr>u_collapsed := Some (depth_ge n lo)\<rparr>)"
    "\<forall>a. a \<notin> set nodes1 \<longrightarrow> s2 a = s1 a" by blast
  have "flags_only s1 s2" unfolding flags_only_def
  proof
    fix b
    show "s2 b = s1 b \<or> (\<exists>n v. s1 b = Some n \<and> s2 b = Some (n\<lparr>u_collapsed := v\<rparr>))"
      using p2(2,3) by (cases "b \<in> set nodes1") blast+
  qed
  then have "tree_within u_children fuel s2 [r] = tree_within u_children fuel s1 [r]"
    by (rule flags_only_tree_within)
  moreover have "tree_within u_children fuel s1 [r] = tree_within u_children fuel (store c) [r]"
    using p1(2) by (rule layout_only_tree_within)
  ultimately have "tree_within u_children fuel s2 [r]" using w by simp
  from tree_nodes_result [OF this] obtain s3 nodes3 where
    p3: "tree_nodes childrenAccessor fuel s2 r = Inr (s3, nodes3)" "layout_only s2 s3" by blast
  have "generateTree fuel c
      = Inr (c\<lparr>store := s3, layoutPasses := layoutPasses c + 2\<rparr>, nodes3, tree_links s3 nodes3)"
    using d u i f p1(1) p2(1) p3(1) by (simp add: generateTree_def)
  with p1 p2 p3 show ?thesis by blast
qed

lemma generateTree_later:
  assumes d: "data c = r # rest" and w: "tree_within u_children fuel (store c) [r]"
    and f: "\<not> initialRender c"
  shows "\<exists>s1 nodes. tree_nodes childrenAccessor fuel (store c) r = Inr (s1, nodes)
         \<and> layout_only (store c) s1
         \<and> generateTree fuel c
             = Inr (c\<lparr>store := s1, layoutPasses := layoutPasses c + 1\<rparr>, nodes, tree_links s1 nodes)"
proof -
  from tree_nodes_result [OF w] obtain s1 nodes where
    p1: "tree_nodes childrenAccessor fuel (store c) r = Inr (s1, nodes)"
    "layout_only (store c) s1" by blast
  have "generateTree fuel c
      = Inr (c\<lparr>store := s1, layoutPasses := layoutPasses c + 1\<rparr>, nodes, tree_links s1 nodes)"
    using d f p1(1) by (simp add: generateTree_def)
  with p1 show ?thesis by blast
qed

subsection \<open>The flag initialRender\<close>

lemma generateTree_initialRender:
  "generateTree fuel c = Inr (c', ns, ls) \<Longrightarrow> initialRender c' = initialRender c"
  by (auto simp: generateTree_def split: list.splits sum.splits if_splits)

lemma getDerivedStateFromProps_initialRender:
  "getDerivedStateFromProps fuel uuid p c = Inr c' \<Longrightarrow> initialRender c' = initialRender c"
  by (auto simp: getDerivedStateFromProps_def split: sum.splits if_splits)

lemma componentDidUpdate_initialRender:
  "initialRender (componentDidUpdate c) = initialRender c"
  by (simp add: componentDidUpdate_def)

lemma handleOnClickCb_initialRender:
  "initialRender (handleOnClickCb c t) = initialRender c"
  by (simp add: handleOnClickCb_def)

lemma update_initialRender:
  assumes "update fuel uuid p c = Inr c'"
  shows "initialRender c' = initialRender c"
proof -
  from assms obtain c1 c2 ns ls where
    1: "getDerivedStateFromProps fuel uuid p c = Inr c1"
    and 2: "generateTree fuel (c1\<lparr>this_props := p\<rparr>) = Inr (c2, ns, ls)"
    and 3: "c' = componentDidUpdate c2"
    by (auto simp: update_def split: sum.splits)
  from 3 have "initialRender c' = initialRender c2" by (simp add: componentDidUpdate_initialRender)
  also from 2 have "\<dots> = initialRender (c1\<lparr>this_props := p\<rparr>)" by (rule generateTree_initialRender)
  also from 1 have "\<dots> = initialRender c" by (simp add: getDerivedStateFromProps_initialRender)
  finally show ?thesis .
qed

text \<open>The two ways in which \<^verbatim>\<open>handleNodeToggle\<close> returns.\<close>

lemma handleNodeToggle_cases:
  assumes "handleNodeToggle fuel uuid c i = Inr c'"
  obtains (committed) t rest n s' c1 where
      "findNodesById fuel (store c) i (data c) [] = Inr (t # rest)"
      "collapsible (this_props c)" "\<not> isTransitioning c"
      "store c t = Some n"
      "(if truthy (u_collapsed n)
        then (case expandNode (store c) t of
                Inl e \<Rightarrow> Inl e
              | Inr s1 \<Rightarrow>
                  if shouldCollapseNeighborNodes (this_props c)
                  then collapseNeighborNodes fuel s1 t (data c)
                  else Inr s1)
        else collapseNode fuel (store c) t) = Inr s'"
      "update fuel uuid (this_props c)
         (c\<lparr>store := s', isTransitioning := True, dataCommits := Suc (dataCommits c),
            timers := timers c @ [transitionDuration (this_props c) + 10],
            targetNode := Some t\<rparr>) = Inr c1"
      "c' = handleOnClickCb c1 (Some t)"
    | (dropped) matches where
      "findNodesById fuel (store c) i (data c) [] = Inr matches"
      "\<not> (collapsible (this_props c) \<and> \<not> isTransitioning c)"
      "c' = handleOnClickCb c (case matches of [] \<Rightarrow> None | t # _ \<Rightarrow> Some t)"
proof -
  from assms obtain matches where m: "findNodesById fuel (store c) i (data c) [] = Inr matches"
    by (auto simp: handleNodeToggle_def split: sum.splits)
  show ?thesis
  proof (cases "collapsible (this_props c) \<and> \<not> isTransitioning c")
    case False
    with assms m have "c' = handleOnClickCb c (case matches of [] \<Rightarrow> None | t # _ \<Rightarrow> Some t)"
      by (auto simp: handleNodeToggle_def Let_def)
    with m False show ?thesis by (rule dropped)
  next
    case True
    show ?thesis
    proof (cases matches)
      case Nil
      with assms m True show ?thesis by (simp add: handleNodeToggle_def Let_def)
    next
      case (Cons t rest)
      show ?thesis
      proof (cases "store c t")
        case None
        with assms m True Cons show ?thesis by (simp add: handleNodeToggle_def Let_def)
      next
        case (Some n)
        let ?toggle = "(if truthy (u_collapsed n)
          then (case expandNode (store c) t of
                  Inl e \<Rightarrow> Inl e
                | Inr s1 \<Rightarrow>
                    if shouldCollapseNeighborNodes (this_props c)
                    then collapseNeighborNodes fuel s1 t (data c)
                    else Inr s1)
          else collapseNode fuel (store c) t)"
        show ?thesis
        proof (cases ?toggle)
          case (Inl e)
          with assms m True Cons Some show ?thesis by (simp add: handleNodeToggle_def Let_def)
        next
          case (Inr s')
          let ?c0 = "c\<lparr>store := s', isTransitioning := True, dataCommits := Suc (dataCommits c),
            timers := timers c @ [transitionDuration (this_props c) + 10],
            targetNode := Some t\<rparr>"
          show ?thesis
          proof (cases "update fuel uuid (this_props c) ?c0")
            case (Inl e)
            with assms m True Cons Some \<open>?toggle = Inr s'\<close> show ?thesis
              by (simp add: handleNodeToggle_def Let_def)
          next
            case u: (Inr c1)
            with assms m True Cons Some \<open>?toggle = Inr s'\<close>
            have "c' = handleOnClickCb c1 (Some t)"
              by (simp add: handleNodeToggle_def Let_def)
            with m Cons True Some \<open>?toggle = Inr s'\<close> u show ?thesis
              by (intro committed [of t rest n s' c1]) simp_all
          qed
        qed
      qed
    qed
  qed
qed

lemma handleNodeToggle_initialRender:
  assumes "handleNodeToggle fuel uuid c i = Inr c'"
  shows "initialRender c' = initialRender c"
  using assms
proof (cases rule: handleNodeToggle_cases)
  case (committed t rest n s' c1)
  from update_initialRender [OF committed(6)] committed(7) show ?thesis
    by (simp add: handleOnClickCb_initialRender)
next
  case (dropped matches)
  then show ?thesis by (simp add: handleOnClickCb_initialRender)
qed

lemma step_initialRender:
  "step fuel uuid c ev = Inr c' \<Longrightarrow> initialRender c' = initialRender c"
  by (cases ev)
     (auto split: list.splits dest!: update_initialRender handleNodeToggle_initialRender)

lemma mount_initialRender: "mount fuel uuid p = Inr c \<Longrightarrow> \<not> initialRender c"
  by (auto simp: mount_def componentDidMount_def split: sum.splits)

lemma construct_initialRender: "construct fuel uuid p = Inr c \<Longrightarrow> initialRender c"
  by (auto simp: construct_def split: sum.splits)

subsection \<open>The examples\<close>

text \<open>
  The first render of the example tree with \<^verbatim>\<open>initialDepth = 1\<close>: B, C and D are
  collapsed, and A, B and C are laid out, with the two links from A (a collapsed node
  hides its children, not itself).
\<close>

lemma example_initial_layout:
  "\<exists>c'. generateTree 3 (fresh_component example_store) = Inr (c', [0, 1, 2], [(0, 1), (0, 2)])
     \<and> collapsed_at (store c') 0 = Some False \<and> collapsed_at (store c') 1 = Some True
     \<and> collapsed_at (store c') 2 = Some True \<and> collapsed_at (store c') 3 = Some True"
  by (simp add: generateTree_def fresh_component_def example_props_def tree_nodes_def
      eval_nat_numeral example_store_def childrenAccessor_def truthy_def
      setInitialTreeDepth_def depth_ge_def tree_links_def kids_by_def collapsed_at_def)

text \<open>
  Mounting on the input data \<open>raw_example\<close> with \<^verbatim>\<open>initialDepth = 1\<close>, and new props
  with \<^verbatim>\<open>initialDepth = 0\<close> for the mounted example component.
\<close>

lemma example_mount:
  "\<exists>c. mount 3 (\<lambda>i. ''u'') example_props = Inr c \<and> layoutPasses c = 2
     \<and> collapsed_at (store c) 0 = Some False \<and> collapsed_at (store c) 1 = Some True
     \<and> collapsed_at (store c) 2 = Some True"
  by (simp add: mount_def construct_def getDerivedStateFromProps_def generateTree_def
      componentDidMount_def example_props_def raw_example_def
      eval_nat_numeral Let_def tree_nodes_def childrenAccessor_def truthy_def tree_links_def
      kids_by_def setInitialTreeDepth_def depth_ge_def collapsed_at_def)

lemma example_new_props:
  "\<exists>c'. step 3 (\<lambda>i. ''u'') (mounted_component example_store)
           (NewProps (example_props\<lparr>initialDepth := Some 0\<rparr>)) = Inr c'
      \<and> layoutPasses c' = 1 \<and> collapsed_at (store c') 0 = Some False"
  by (simp add: update_def getDerivedStateFromProps_def generateTree_def componentDidUpdate_def
      mounted_component_def fresh_component_def example_props_def example_store_def
      eval_nat_numeral Let_def tree_nodes_def childrenAccessor_def truthy_def tree_links_def
      kids_by_def calculateD3Geometry_def collapsed_at_def)

text \<open>
  New input data (a new \<open>data_ref\<close>) for a mounted component in which A and C are
  collapsed: the tree is derived again from the input data, so A is expanded again and
  B has the flag the input gives it.
\<close>

lemma new_data_rederived:
  "\<exists>c'. collapsed_at (store (mounted_component collapsed_example)) 0 = Some True
      \<and> step 3 (\<lambda>i. ''u'') (mounted_component collapsed_example)
            (NewProps (example_props\<lparr>data_ref := 1\<rparr>)) = Inr c'
      \<and> dataRef c' = 1 \<and> layoutPasses c' = 1
      \<and> collapsed_at (store c') 0 = Some False \<and> collapsed_at (store c') 1 = Some True
      \<and> collapsed_at (store c') 2 = Some False \<and> store c' 3 = None"
  by (simp add: getDerivedStateFromProps_def generateTree_def mounted_component_def
      fresh_component_def example_props_def raw_example_def update_def componentDidUpdate_def
      collapsed_example_def calculateD3Geometry_def
      eval_nat_numeral Let_def tree_nodes_def childrenAccessor_def truthy_def tree_links_def
      kids_by_def collapsed_at_def)

lemma chain_first_pass:
  "tree_nodes childrenAccessor 3 chain_store 0
     = Inr (chain_store(0 \<mapsto> \<lparr>node_id = Some ''A'', u_collapsed = Some True, children = None,
             u_children = Some [1], depth = Some 0\<rparr>), [0])"
  by (simp add: tree_nodes_def eval_nat_numeral chain_store_def childrenAccessor_def truthy_def)

subsection \<open>handleNodeToggle\<close>

lemma all_nodes_tree_within:
  "tree_within u_children k s as \<Longrightarrow> a \<in> set (all_nodes k s as) \<Longrightarrow> tree_within u_children k s [a]"
proof (induction k arbitrary: as a)
  case 0
  then show ?case by simp
next
  case (Suc k)
  from Suc.prems(2) obtain b where b: "b \<in> set as"
    "a = b \<or> a \<in> set (all_nodes k s (kids_by u_children s b))" by auto
  from b(2) show ?case
  proof
    assume "a = b"
    with tree_within_member [OF Suc.prems(1) b(1)] show ?thesis by (simp only:)
  next
    assume a: "a \<in> set (all_nodes k s (kids_by u_children s b))"
    then have "kids_by u_children s b \<noteq> []" by auto
    with tree_within_SucD [OF Suc.prems(1) b(1)]
    have "tree_within u_children k s (kids_by u_children s b)" by simp
    from Suc.IH [OF this a] show ?thesis by (rule tree_within_Suc)
  qed
qed

lemma walk_order_tree_within:
  "tree_within u_children k s as \<Longrightarrow> a \<in> set (walk_order k s as) \<Longrightarrow> tree_within u_children k s [a]"
proof (induction k arbitrary: as a)
  case 0
  then show ?case by simp
next
  case (Suc k)
  from Suc.prems(2) consider "a \<in> set as"
    | b where "b \<in> set as" "a \<in> set (walk_order k s (kids_by u_children s b))" by auto
  then show ?case
  proof cases
    case 1
    with Suc.prems(1) show ?thesis by (rule tree_within_member)
  next
    case 2
    then have "kids_by u_children s b \<noteq> []" by auto
    with tree_within_SucD [OF Suc.prems(1) 2(1)]
    have "tree_within u_children k s (kids_by u_children s b)" by simp
    from Suc.IH [OF this 2(2)] show ?thesis by (rule tree_within_Suc)
  qed
qed

lemma collapseNeighborNodes_total:
  assumes w: "tree_within u_children k s roots" and t: "s t = Some n"
  shows "\<exists>s'. collapseNeighborNodes k s t roots = Inr s' \<and> collapsed_more s s'"
proof -
  let ?found = "filter (has_depth s (depth n)) (walk_order k s roots)"
  have f: "findNodesAtDepth k s (depth n) roots [] = Inr ?found"
    using findNodesAtDepth_walk [OF w, of "depth n" "[]"] by simp
  have tw: "tree_within u_children k s [a]" if "a \<in> set ?found" for a
    using that walk_order_tree_within [OF w] by simp
  have "\<forall>a \<in> set ?found. s a \<noteq> None"
  proof
    fix a assume "a \<in> set ?found"
    from tree_within_defined [OF tw [OF this]] show "s a \<noteq> None" by auto
  qed
  from filterNodes_defined [OF this, of "\<lambda>m. node_id m \<noteq> node_id n"]
  obtain neighbors where nb: "filterNodes s (\<lambda>m. node_id m \<noteq> node_id n) ?found = Inr neighbors"
    "set neighbors \<subseteq> set ?found" by auto
  have "\<exists>s'. forEach (collapseNode k) neighbors s = Inr s' \<and> collapsed_more s s'"
  proof (rule forEach_total [where P = "collapsed_more s"])
    show "collapsed_more s s" by (rule collapsed_more_refl)
  next
    fix u a assume a: "a \<in> set neighbors" and u: "collapsed_more s u"
    from a nb(2) have "a \<in> set ?found" by blast
    then have "tree_within u_children k s [a]" by (rule tw)
    then have "tree_within u_children k u [a]" using u by (simp add: collapsed_more_tree_within)
    from collapseNode_total [OF this] obtain u' where u': "collapseNode k u a = Inr u'" ..
    then have "collapsed_more u u'" by (rule collapseNode_more)
    with u have "collapsed_more s u'" by (rule collapsed_more_trans)
    with u' show "\<exists>u'. collapseNode k u a = Inr u' \<and> collapsed_more s u'" by blast
  qed
  with t f nb(1) show ?thesis by (simp add: collapseNeighborNodes_def)
qed

lemma toggle_total:
  assumes w: "tree_within u_children k s roots" and wt: "tree_within u_children k s [t]"
    and t: "s t = Some n"
  shows "\<exists>s'. (if truthy (u_collapsed n)
                then (case expandNode s t of
                        Inl e \<Rightarrow> Inl e
                      | Inr s1 \<Rightarrow> if neighbours then collapseNeighborNodes k s1 t roots else Inr s1)
                else collapseNode k s t) = Inr s'
             \<and> flags_only s s'"
proof (cases "truthy (u_collapsed n)")
  case False
  from collapseNode_total [OF wt] obtain s' where s': "collapseNode k s t = Inr s'" ..
  then have "flags_only s s'" by (auto dest: collapseNode_more collapsed_more_flags)
  with False s' show ?thesis by simp
next
  case True
  let ?s1 = "s(t \<mapsto> n\<lparr>u_collapsed := Some False\<rparr>)"
  have e: "expandNode s t = Inr ?s1" using t by (simp add: expandNode_def)
  have f1: "flags_only s ?s1" using t by (rule flags_only_upd)
  show ?thesis
  proof (cases neighbours)
    case False
    with True e f1 show ?thesis by simp
  next
    case nb: True
    have "tree_within u_children k ?s1 roots" using w f1 by (simp add: flags_only_tree_within)
    moreover have "?s1 t = Some (n\<lparr>u_collapsed := Some False\<rparr>)" by simp
    ultimately obtain s' where s': "collapseNeighborNodes k ?s1 t roots = Inr s'"
      "collapsed_more ?s1 s'" using collapseNeighborNodes_total by blast
    from f1 collapsed_more_flags [OF s'(2)] have "flags_only s s'" by (rule flags_only_trans)
    with True nb e s'(1) show ?thesis by simp
  qed
qed

text \<open>An update of a mounted component whose \<^verbatim>\<open>data\<close> prop is the object it has seen.\<close>

lemma update_mounted:
  assumes "\<not> initialRender c" and "dataRef c = data_ref p" and "data c = r # rest"
    and "tree_within u_children k (store c) [r]"
  shows "\<exists>s1. layout_only (store c) s1
           \<and> update k uuid p c
              = Inr (componentDidUpdate
                       (c\<lparr>d3 := calculateD3Geometry p, this_props := p, store := s1,
                          layoutPasses := layoutPasses c + 1\<rparr>))"
proof -
  let ?c1 = "c\<lparr>d3 := calculateD3Geometry p\<rparr>"
  have g: "getDerivedStateFromProps k uuid p c = Inr ?c1"
    using assms(2) by (simp add: getDerivedStateFromProps_def)
  let ?c2 = "?c1\<lparr>this_props := p\<rparr>"
  have "data ?c2 = r # rest" "tree_within u_children k (store ?c2) [r]" "\<not> initialRender ?c2"
    using assms by simp_all
  from generateTree_later [OF this] obtain s1 nodes where
    l: "layout_only (store ?c2) s1"
    "generateTree k ?c2
      = Inr (?c2\<lparr>store := s1, layoutPasses := layoutPasses ?c2 + 1\<rparr>, nodes, tree_links s1 nodes)"
    by blast
  from g l(2) have "update k uuid p c
      = Inr (componentDidUpdate (?c2\<lparr>store := s1, layoutPasses := layoutPasses ?c2 + 1\<rparr>))"
    by (simp add: update_def)
  with l(1) show ?thesis by (intro exI [of _ s1]) simp
qed

lemma dropped_toggle:
  assumes "isTransitioning c" and "tree_within u_children k (store c) (data c)"
  shows "\<exists>x. handleNodeToggle k uuid c j = Inr (handleOnClickCb c x)"
proof -
  from findNodesById_subseq [OF assms(2), of j] obtain m where
    "findNodesById k (store c) j (data c) [] = Inr m" by blast
  with assms(1) have "handleNodeToggle k uuid c j
      = Inr (handleOnClickCb c (case m of [] \<Rightarrow> None | t # _ \<Rightarrow> Some t))"
    by (simp add: handleNodeToggle_def Let_def)
  then show ?thesis by blast
qed

lemma handleNodeToggle_commit:
  assumes "findNodesById k (store c) i (data c) [] = Inr (t # ms)"
    and "collapsible (this_props c)" and "\<not> isTransitioning c"
    and "store c t = Some n"
    and "(if truthy (u_collapsed n)
          then (case expandNode (store c) t of
                  Inl e \<Rightarrow> Inl e
                | Inr s1 \<Rightarrow>
                    if shouldCollapseNeighborNodes (this_props c)
                    then collapseNeighborNodes k s1 t (data c) else Inr s1)
          else collapseNode k (store c) t) = Inr s'"
    and "update k uuid (this_props c)
           (c\<lparr>store := s', isTransitioning := True, dataCommits := Suc (dataCommits c),
              timers := timers c @ [transitionDuration (this_props c) + 10],
              targetNode := Some t\<rparr>) = Inr c1"
  shows "handleNodeToggle k uuid c i = Inr (handleOnClickCb c1 (Some t))"
  unfolding handleNodeToggle_def Let_def using assms by simp

lemma committed_toggle:
  assumes mounted: "\<not> initialRender c" and same: "dataRef c = data_ref (this_props c)"
    and w: "tree_within u_children k (store c) (data c)"
    and present: "filter (has_id (store c) i) (all_nodes k (store c) (data c)) \<noteq> []"
    and unlocked: "collapsible (this_props c)" "\<not> isTransitioning c"
  shows "\<exists>t s' s1 c0. has_id (store c) i t \<and> flags_only (store c) s' \<and> layout_only s' s1
           \<and> c0 = c\<lparr>store := s', isTransitioning := True,
                      dataCommits := Suc (dataCommits c),
                      timers := timers c @ [transitionDuration (this_props c) + 10],
                      targetNode := Some t\<rparr>
           \<and> handleNodeToggle k uuid c i
              = Inr (handleOnClickCb
                       (componentDidUpdate
                          (c0\<lparr>d3 := calculateD3Geometry (this_props c),
                              this_props := this_props c, store := s1,
                              layoutPasses := layoutPasses c0 + 1\<rparr>))
                       (Some t))"
proof -
  from present obtain r rest where d: "data c = r # rest" by (cases "data c") auto
  from findNodesById_subseq [OF w, of i] obtain r0 where
    f0: "findNodesById k (store c) i (data c) [] = Inr r0"
    and sub: "subseq r0 (filter (has_id (store c) i) (all_nodes k (store c) (data c)))"
    and ne: "r0 = [] \<longrightarrow> filter (has_id (store c) i) (all_nodes k (store c) (data c)) = []"
    by blast
  from ne present obtain t ms where r0: "r0 = t # ms" by (cases r0) auto
  from list_emb_set [OF sub, of t] r0
  have "t \<in> set (filter (has_id (store c) i) (all_nodes k (store c) (data c)))" by auto
  then have tin: "t \<in> set (all_nodes k (store c) (data c))" and hid: "has_id (store c) i t"
    by simp_all
  from w tin have wt: "tree_within u_children k (store c) [t]" by (rule all_nodes_tree_within)
  then obtain n where n: "store c t = Some n" using tree_within_defined by blast
  from toggle_total [OF w wt n, of "shouldCollapseNeighborNodes (this_props c)"]
  obtain s' where s': "(if truthy (u_collapsed n)
                then (case expandNode (store c) t of
                        Inl e \<Rightarrow> Inl e
                      | Inr s1 \<Rightarrow>
                          if shouldCollapseNeighborNodes (this_props c)
                          then collapseNeighborNodes k s1 t (data c) else Inr s1)
                else collapseNode k (store c) t) = Inr s'"
    and fl: "flags_only (store c) s'" by blast
  define c0 where "c0 = c\<lparr>store := s', isTransitioning := True,
               dataCommits := Suc (dataCommits c),
               timers := timers c @ [transitionDuration (this_props c) + 10],
               targetNode := Some t\<rparr>"
  from w d have "tree_within u_children k (store c) [r]" by (auto intro: tree_within_member)
  with fl have wr: "tree_within u_children k s' [r]" by (simp add: flags_only_tree_within)
  have c0: "\<not> initialRender c0" "dataRef c0 = data_ref (this_props c)" "data c0 = r # rest"
    "tree_within u_children k (store c0) [r]"
    using mounted same d wr by (simp_all add: c0_def)
  from update_mounted [OF c0, of uuid] obtain s1 where
    l: "layout_only (store c0) s1"
    and u: "update k uuid (this_props c) c0
      = Inr (componentDidUpdate
               (c0\<lparr>d3 := calculateD3Geometry (this_props c), this_props := this_props c,
                    store := s1, layoutPasses := layoutPasses c0 + 1\<rparr>))"
    by blast
  have st: "store c0 = s'" by (simp add: c0_def)
  have "handleNodeToggle k uuid c i
      = Inr (handleOnClickCb
               (componentDidUpdate
                  (c0\<lparr>d3 := calculateD3Geometry (this_props c), this_props := this_props c,
                       store := s1, layoutPasses := layoutPasses c0 + 1\<rparr>))
               (Some t))"
    using f0 [unfolded r0] unlocked n s' u [unfolded c0_def] unfolding c0_def
    by (rule handleNodeToggle_commit)
  with hid fl l [unfolded st] c0_def show ?thesis by blast
qed

lemma handleOnClickCb_fields:
  "handleOnClickCb c x\<lparr>onClickCalls := onClickCalls c\<rparr> = c"
  "this_props (handleOnClickCb c x) = this_props c"
  "store (handleOnClickCb c x) = store c"
  "dataRef (handleOnClickCb c x) = dataRef c"
  "data (handleOnClickCb c x) = data c"
  "d3 (handleOnClickCb c x) = d3 c"
  "isTransitioning (handleOnClickCb c x) = isTransitioning c"
  "timers (handleOnClickCb c x) = timers c"
  "onUpdateCalls (handleOnClickCb c x) = onUpdateCalls c"
  "dataCommits (handleOnClickCb c x) = dataCommits c"
  by (simp_all add: handleOnClickCb_def)

lemma componentDidUpdate_fields:
  "this_props (componentDidUpdate c) = this_props c"
  "store (componentDidUpdate c) = store c"
  "dataRef (componentDidUpdate c) = dataRef c"
  "data (componentDidUpdate c) = data c"
  "d3 (componentDidUpdate c) = d3 c"
  "isTransitioning (componentDidUpdate c) = isTransitioning c"
  "timers (componentDidUpdate c) = timers c"
  "dataCommits (componentDidUpdate c) = dataCommits c"
  "onUpdate (this_props c) \<Longrightarrow> onUpdateCalls (componentDidUpdate c)
     = onUpdateCalls c @ [\<lparr>un_node = targetNode c, un_zoom = scale (d3 c),
                            un_translate = translate (d3 c)\<rparr>]"
  by (simp_all add: componentDidUpdate_def)

text \<open>
  Mounting the component on the data \<open>raw_hidden_child\<close>, without \<^verbatim>\<open>initialDepth\<close>,
  gives the store \<open>hidden_child_store\<close>: the child B is never laid out and has no
  \<^verbatim>\<open>depth\<close>.
\<close>

lemma hidden_child_reached:
  "\<exists>c. mount 2 (\<lambda>i. if i = 0 then ''A'' else ''B'')
          (example_props\<lparr>initialDepth := None, p_heap := raw_hidden_child\<rparr>) = Inr c
       \<and> (\<forall>a. store c a = hidden_child_store a)"
  by (simp add: mount_def construct_def getDerivedStateFromProps_def generateTree_def
      componentDidMount_def example_props_def raw_hidden_child_def hidden_child_store_def
      eval_nat_numeral Let_def tree_nodes_def childrenAccessor_def truthy_def tree_links_def
      kids_by_def)

section \<open>Properties\<close>

subsection \<open>C1: collapseNode collapses the whole subtree\<close>

text \<open>
  C1. For a node \<open>n\<close> whose structure below (through \<^verbatim>\<open>_children\<close>) is finite and free
  of cycles, \<^verbatim>\<open>collapseNode(n)\<close> returns, and afterwards \<open>n\<close> and every descendant of
  \<open>n\<close> through \<^verbatim>\<open>_children\<close> has \<^verbatim>\<open>_collapsed === true\<close>.
\<close>

theorem collapseNode_subtree_collapsed:
  assumes "tree_within u_children k s [n]"
  shows "\<exists>s'. collapseNode k s n = Inr s'
           \<and> (\<forall>b. (n, b) \<in> (child_rel u_children s)\<^sup>* \<longrightarrow> collapsed_at s' b = Some True)"
proof -
  from collapseNode_total [OF assms] obtain s' where s': "collapseNode k s n = Inr s'" ..
  have "collapsed_at s' b = Some True" if "(n, b) \<in> (child_rel u_children s)\<^sup>*" for b
    using collapseNode_reaches [OF s' that] by (auto simp: collapsed_at_def)
  with s' show ?thesis by blast
qed

text \<open>On the example tree, collapsing A collapses A, B, C and D.\<close>

theorem collapseNode_subtree_collapsed_witness:
  "tree_within u_children 3 example_store [0]
   \<and> (\<exists>s'. collapseNode 3 example_store 0 = Inr s'
         \<and> collapsed_at s' 0 = Some True \<and> collapsed_at s' 1 = Some True
         \<and> collapsed_at s' 2 = Some True \<and> collapsed_at s' 3 = Some True)"
proof -
  have w: "tree_within u_children 3 example_store [0]"
    by (simp add: eval_nat_numeral kids_by_def example_store_def)
  have r: "(0, 0) \<in> (child_rel u_children example_store)\<^sup>*"
    "(0, 1) \<in> (child_rel u_children example_store)\<^sup>*"
    "(0, 2) \<in> (child_rel u_children example_store)\<^sup>*"
    "(0, 3) \<in> (child_rel u_children example_store)\<^sup>*"
    unfolding example_rel
    by (blast intro: rtrancl.intros)+
  from collapseNode_subtree_collapsed [OF w] r w show ?thesis by blast
qed

subsection \<open>C2: collapse and expand leave the child arrays alone\<close>

text \<open>
  C2. Take a finite, cycle-free tree and any finite sequence of \<^verbatim>\<open>collapseNode\<close> and
  \<^verbatim>\<open>expandNode\<close> calls on nodes of the tree. The sequence returns, and in the
  resulting store every node is the node it was but for its flag \<^verbatim>\<open>_collapsed\<close>; in
  particular the array \<^verbatim>\<open>_children\<close> of every node has the same elements in the same
  order. (An array is represented by its elements: the model has no array reference
  to compare.)
\<close>

theorem collapse_expand_keep_children:
  assumes "tree_within u_children k s roots"
    and "\<forall>c \<in> set calls. \<exists>r \<in> set roots. (r, target c) \<in> (child_rel u_children s)\<^sup>*"
  shows "\<exists>s'. run_calls k s calls = Inr s' \<and> flags_only s s'
           \<and> (\<forall>b. map_option u_children (s' b) = map_option u_children (s b))"
proof -
  have "\<exists>s'. forEach (run_call k) calls s = Inr s' \<and> flags_only s s'"
  proof (rule forEach_total [where P = "flags_only s"])
    show "flags_only s s" by (rule flags_only_refl)
  next
    fix t c assume c: "c \<in> set calls" and t: "flags_only s t"
    from assms(2) c obtain r where r: "r \<in> set roots" "(r, target c) \<in> (child_rel u_children s)\<^sup>*"
      by blast
    from assms(1) r(1) have "tree_within u_children k s [r]" by (rule tree_within_member)
    with r(2) have "tree_within u_children k s [target c]" by (rule tree_within_descendant)
    then have "tree_within u_children k t [target c]" using t by (simp add: flags_only_tree_within)
    then obtain t' where t': "run_call k t c = Inr t'" using run_call_total by blast
    then have "flags_only t t'" by (rule run_call_flags)
    with t have "flags_only s t'" by (rule flags_only_trans)
    with t' show "\<exists>t'. run_call k t c = Inr t' \<and> flags_only s t'" by blast
  qed
  then obtain s' where s': "run_calls k s calls = Inr s'" "flags_only s s'"
    by (auto simp: run_calls_def)
  have "map_option u_children (s' b) = map_option u_children (s b)" for b
  proof (cases "s b")
    case None
    with s'(2) show ?thesis by (simp add: flags_only_dom)
  next
    case (Some n)
    from flags_only_fields [OF s'(2) Some] show ?thesis using Some by auto
  qed
  with s' show ?thesis by blast
qed

text \<open>Collapse C, expand A, expand D on the example tree.\<close>

theorem collapse_expand_keep_children_witness:
  "tree_within u_children 3 example_store [0]
   \<and> (0, target (Collapse 2)) \<in> (child_rel u_children example_store)\<^sup>*
   \<and> (0, target (Expand 0)) \<in> (child_rel u_children example_store)\<^sup>*
   \<and> (0, target (Expand 3)) \<in> (child_rel u_children example_store)\<^sup>*
   \<and> (\<exists>s'. run_calls 3 example_store [Collapse 2, Expand 0, Expand 3] = Inr s'
         \<and> flags_only example_store s'
         \<and> (\<forall>b. map_option u_children (s' b) = map_option u_children (example_store b)))"
proof -
  have w: "tree_within u_children 3 example_store [0]"
    by (simp add: eval_nat_numeral kids_by_def example_store_def)
  have r: "\<forall>c \<in> set [Collapse 2, Expand 0, Expand 3].
         \<exists>r \<in> set [0]. (r, target c) \<in> (child_rel u_children example_store)\<^sup>*"
    unfolding example_rel by (auto intro: rtrancl.intros)
  from collapse_expand_keep_children [OF w r] w r show ?thesis by simp
qed

subsection \<open>C3: the initial depth on the first render\<close>

text \<open>
  C3 does not hold of the code when the input data marks a node as collapsed. Take the
  input data
  \<^verbatim>\<open>{name: "A", _collapsed: true, children: [{name: "B", children: [{name: "C"}]}]}\<close>
  with \<^verbatim>\<open>initialDepth = 1\<close> and \<^verbatim>\<open>useCollapseData = false\<close>. The constructor keeps
  the flag of A. The render at mount lays out twice, but the first layout reaches A
  only, so that \<^verbatim>\<open>setInitialTreeDepth\<close> writes the flag of A (to \<^verbatim>\<open>false\<close>) and of no
  other node; the second layout then reaches B at depth 1 and C at depth 2. The first
  render draws A, B and C with the links from A to B and from B to C, and B and C
  stay expanded although their depth is at least \<^verbatim>\<open>initialDepth\<close>. The documentation
  of \<^verbatim>\<open>generateTree\<close> says that it restricts the tree depth to \<^verbatim>\<open>props.initialDepth\<close>
  on the initial render; here the tree is drawn to depth 2. \<open>mount\<close> returns the
  component of that render with \<open>initialRender\<close> cleared, and the next render, with
  one layout, finds the same nodes and links and changes no flag.
\<close>

theorem initial_depth_skips_hidden_nodes:
  "\<exists>c0 s1 c2 c3.
      construct 3 (\<lambda>i. ''u'') (example_props\<lparr>p_heap := raw_chain\<rparr>) = Inr c0
    \<and> initialRender c0 \<and> collapsed_at (store c0) 0 = Some True
    \<and> collapsed_at (store c0) 1 = Some False \<and> collapsed_at (store c0) 2 = Some False
    \<and> tree_nodes childrenAccessor 3 (store c0) 0 = Inr (s1, [0])
    \<and> generateTree 3 c0 = Inr (c2, [0, 1, 2], [(0, 1), (1, 2)])
    \<and> layoutPasses c2 = 2
    \<and> depth_at (store c2) 0 = Some 0 \<and> collapsed_at (store c2) 0 = Some False
    \<and> depth_at (store c2) 1 = Some 1 \<and> collapsed_at (store c2) 1 = Some False
    \<and> depth_at (store c2) 2 = Some 2 \<and> collapsed_at (store c2) 2 = Some False
    \<and> mount 3 (\<lambda>i. ''u'') (example_props\<lparr>p_heap := raw_chain\<rparr>) = Inr (componentDidMount c2)
    \<and> \<not> initialRender (componentDidMount c2)
    \<and> generateTree 3 (componentDidMount c2) = Inr (c3, [0, 1, 2], [(0, 1), (1, 2)])
    \<and> layoutPasses c3 = 3
    \<and> collapsed_at (store c3) 1 = Some False \<and> collapsed_at (store c3) 2 = Some False"
  by (simp add: mount_def construct_def getDerivedStateFromProps_def generateTree_def
      componentDidMount_def example_props_def raw_chain_def
      eval_nat_numeral Let_def tree_nodes_def childrenAccessor_def truthy_def tree_links_def
      kids_by_def setInitialTreeDepth_def depth_ge_def collapsed_at_def depth_at_def)

subsection \<open>C4: findNodesById\<close>



subsection \<open>C5: findNodesAtDepth\<close>




subsection \<open>C6: expandNode changes one flag\<close>

text \<open>
  C6. For a node \<open>n\<close>, \<^verbatim>\<open>expandNode(n)\<close> returns the store in which \<open>n\<close> has
  \<^verbatim>\<open>_collapsed === false\<close> and its other fields as before; every other node, so every
  other descendant of \<open>n\<close>, is exactly what it was.
\<close>

theorem expandNode_only_that_flag:
  assumes "s n = Some m"
  shows "expandNode s n = Inr (s(n \<mapsto> m\<lparr>u_collapsed := Some False\<rparr>))
       \<and> collapsed_at (s(n \<mapsto> m\<lparr>u_collapsed := Some False\<rparr>)) n = Some False
       \<and> (\<forall>b. b \<noteq> n \<longrightarrow> (s(n \<mapsto> m\<lparr>u_collapsed := Some False\<rparr>)) b = s b)"
  using assms by (simp add: expandNode_def collapsed_at_def)

theorem expandNode_only_that_flag_witness:
  "example_store 2 \<noteq> None
   \<and> (\<exists>s'. expandNode example_store 2 = Inr s' \<and> collapsed_at s' 2 = Some False
         \<and> s' 0 = example_store 0 \<and> s' 1 = example_store 1 \<and> s' 3 = example_store 3)"
proof -
  obtain m where m: "example_store 2 = Some m" by (simp add: example_store_def)
  from expandNode_only_that_flag [of example_store 2 m] m show ?thesis by auto
qed

subsection \<open>C7: the resolved initial scale is the clamped zoom\<close>

text \<open>
  C7. For every requested zoom and every scale extent with \<open>min \<le> max\<close>, the geometry
  returned by \<^verbatim>\<open>calculateD3Geometry\<close> has \<open>scale = clamp zoom min max\<close>, and its
  translate is the translate it was given.
\<close>

theorem calculateD3Geometry_clamp:
  assumes "ext_min (scaleExtent p) \<le> ext_max (scaleExtent p)"
  shows "scale (calculateD3Geometry p) = clamp (zoom p) (ext_min (scaleExtent p)) (ext_max (scaleExtent p))
       \<and> translate (calculateD3Geometry p) = p_translate p"
  using assms by (simp add: calculateD3Geometry_def clamp_def Let_def)

text \<open>The scenario of the specification: zoom 5 within the extent 0.1 .. 2 resolves to 2.\<close>

theorem calculateD3Geometry_clamp_witness:
  "ext_min \<lparr> ext_min = 1/10, ext_max = 2 \<rparr> \<le> ext_max \<lparr> ext_min = 1/10, ext_max = 2 \<rparr>
   \<and> scale (calculateD3Geometry
        \<lparr> zoom = 5, scaleExtent = \<lparr> ext_min = 1/10, ext_max = 2 \<rparr>, p_translate = \<lparr> px = 0, py = 0 \<rparr> \<rparr>) = 2
   \<and> translate (calculateD3Geometry
        \<lparr> zoom = 5, scaleExtent = \<lparr> ext_min = 1/10, ext_max = 2 \<rparr>, p_translate = \<lparr> px = 0, py = 0 \<rparr> \<rparr>)
       = \<lparr> px = 0, py = 0 \<rparr>"
  using calculateD3Geometry_clamp
    [of "\<lparr> zoom = 5, scaleExtent = \<lparr> ext_min = 1/10, ext_max = 2 \<rparr>, p_translate = \<lparr> px = 0, py = 0 \<rparr> \<rparr>"]
  by (simp add: clamp_def)

subsection \<open>C8: the initial flag is the input's flag, or false\<close>

text \<open>
  C8. On finite, cycle-free input data \<^verbatim>\<open>assignInternalProperties\<close> returns, and every
  node of the data (every node reached from a root through \<^verbatim>\<open>children\<close>) then has the
  flag \<^verbatim>\<open>_collapsed\<close> set to \<^verbatim>\<open>collapsed ?? false\<close> of the flag it came with: a flag
  that was \<^verbatim>\<open>true\<close> or \<^verbatim>\<open>false\<close> is kept, an absent flag becomes \<^verbatim>\<open>false\<close>.
\<close>

theorem assignInternalProperties_collapsed:
  assumes "tree_within children k s (roots_of dat)"
  shows "\<exists>s' j. assignInternalProperties k uuid dat (s, i) = Inr (roots_of dat, (s', j))
           \<and> (\<forall>r \<in> set (roots_of dat). \<forall>b. (r, b) \<in> (child_rel children s)\<^sup>*
                 \<longrightarrow> collapsed_at s' b = Some (or_false (collapsed_at s b)))"
proof -
  have eq: "assignInternalProperties k uuid dat (s, i)
      = assignInternalProperties k uuid (Many (roots_of dat)) (s, i)"
    by (cases dat) (simp_all add: roots_of_def assign_Single)
  from assign_many [OF assms, of uuid i] obtain s' j where
    r: "assignInternalProperties k uuid (Many (roots_of dat)) (s, i) = Inr (roots_of dat, (s', j))"
    "assign_rel s s'"
    "\<forall>a \<in> set (roots_of dat). \<forall>b. (a, b) \<in> (child_rel children s)\<^sup>* \<longrightarrow> collapsed_at s' b \<noteq> None"
    by blast
  have "collapsed_at s' b = Some (or_false (collapsed_at s b))"
    if "a \<in> set (roots_of dat)" "(a, b) \<in> (child_rel children s)\<^sup>*" for a b
  proof -
    from r(3) that obtain v where v: "collapsed_at s' b = Some v" by auto
    with assign_rel_flag [OF r(2) v] show ?thesis by simp
  qed
  with r(1) eq show ?thesis by auto
qed

text \<open>
  Raw data: a root without a flag, with a child marked collapsed and a child marked
  expanded.
\<close>

theorem assignInternalProperties_collapsed_witness:
  "tree_within children 2 raw_example (roots_of (Single 0))
   \<and> (\<exists>s' j. assignInternalProperties 2 (\<lambda>i. ''u'') (Single 0) (raw_example, 0) = Inr ([0], (s', j))
         \<and> collapsed_at raw_example 0 = None \<and> collapsed_at s' 0 = Some False
         \<and> collapsed_at raw_example 1 = Some True \<and> collapsed_at s' 1 = Some True
         \<and> collapsed_at raw_example 2 = Some False \<and> collapsed_at s' 2 = Some False)"
proof -
  have w: "tree_within children 2 raw_example (roots_of (Single 0))"
    by (simp add: eval_nat_numeral kids_by_def raw_example_def roots_of_def)
  have rel: "child_rel children raw_example = {(0, 1), (0, 2)}"
    by (auto simp: child_rel_def kids_by_def raw_example_def split: if_splits)
  have r: "(0, 0) \<in> (child_rel children raw_example)\<^sup>*"
    "(0, 1) \<in> (child_rel children raw_example)\<^sup>*"
    "(0, 2) \<in> (child_rel children raw_example)\<^sup>*"
    unfolding rel by (blast intro: rtrancl.intros)+
  have f: "collapsed_at raw_example 0 = None" "collapsed_at raw_example 1 = Some True"
    "collapsed_at raw_example 2 = Some False"
    by (simp_all add: collapsed_at_def raw_example_def)
  from assignInternalProperties_collapsed [OF w, of "\<lambda>i. ''u''" 0] obtain s' j where
    res: "assignInternalProperties 2 (\<lambda>i. ''u'') (Single 0) (raw_example, 0)
            = Inr (roots_of (Single 0), (s', j))"
    and fl: "\<forall>r \<in> set (roots_of (Single 0)). \<forall>b. (r, b) \<in> (child_rel children raw_example)\<^sup>*
                 \<longrightarrow> collapsed_at s' b = Some (or_false (collapsed_at raw_example b))"
    by blast
  have z: "0 \<in> set (roots_of (Single 0))" by (simp add: roots_of_def)
  from fl z r have "collapsed_at s' 0 = Some (or_false (collapsed_at raw_example 0))"
    "collapsed_at s' 1 = Some (or_false (collapsed_at raw_example 1))"
    "collapsed_at s' 2 = Some (or_false (collapsed_at raw_example 2))"
    by blast+
  then have "collapsed_at s' 0 = Some False" "collapsed_at s' 1 = Some True"
    "collapsed_at s' 2 = Some False"
    unfolding f or_false_def by simp_all
  moreover from res have "assignInternalProperties 2 (\<lambda>i. ''u'') (Single 0) (raw_example, 0)
            = Inr ([0], (s', j))" by (simp add: roots_of_def)
  ultimately show ?thesis using w f by blast
qed

subsection \<open>C9: a toggle request during the lock window is dropped\<close>

text \<open>
  C9. Take a mounted, collapsible, unlocked component with an \<^verbatim>\<open>onUpdate\<close> callback, and
  a toggle request for a node of its tree. The request returns: it commits the tree
  state once, calls \<^verbatim>\<open>onUpdate\<close> once, with the toggled node, sets the lock and starts
  one timer of \<^verbatim>\<open>transitionDuration + 10\<close>. Any second toggle request that arrives
  before the timer fires returns and leaves the component as it is, but for the call
  of \<^verbatim>\<open>onClick\<close>: no commit, no call of \<^verbatim>\<open>onUpdate\<close>, no timer, nothing kept for
  later. So the pair makes one commit of the tree state and one call of \<^verbatim>\<open>onUpdate\<close>.
  When the timer fires afterwards, the lock is released and no flag changes; this
  \<^verbatim>\<open>setState\<close> is an update of its own and calls \<^verbatim>\<open>onUpdate\<close> with \<^verbatim>\<open>node: null\<close>.
\<close>

theorem second_toggle_dropped:
  assumes mounted: "\<not> initialRender c" and same: "dataRef c = data_ref (this_props c)"
    and w: "tree_within u_children k (store c) (data c)"
    and present: "filter (has_id (store c) i) (all_nodes k (store c) (data c)) \<noteq> []"
    and unlocked: "collapsible (this_props c)" "\<not> isTransitioning c" "timers c = []"
    and notify: "onUpdate (this_props c)"
  shows "\<exists>c1 t. step k uuid c (Toggle i) = Inr c1
           \<and> has_id (store c) i t
           \<and> isTransitioning c1
           \<and> timers c1 = [transitionDuration (this_props c) + 10]
           \<and> dataCommits c1 = Suc (dataCommits c)
           \<and> onUpdateCalls c1 = onUpdateCalls c @
                [\<lparr>un_node = Some t, un_zoom = scale (d3 c1), un_translate = translate (d3 c1)\<rparr>]
           \<and> (\<forall>j. \<exists>c2. step k uuid c1 (Toggle j) = Inr c2
                  \<and> c2\<lparr>onClickCalls := onClickCalls c1\<rparr> = c1
                  \<and> (\<exists>c3. step k uuid c2 TimerFires = Inr c3
                        \<and> \<not> isTransitioning c3 \<and> timers c3 = []
                        \<and> dataCommits c3 = dataCommits c1
                        \<and> (\<forall>a. collapsed_at (store c3) a = collapsed_at (store c1) a)
                        \<and> onUpdateCalls c3 = onUpdateCalls c1 @
                             [\<lparr>un_node = None, un_zoom = scale (d3 c3),
                               un_translate = translate (d3 c3)\<rparr>]))"
proof -
  from present obtain r rest where d: "data c = r # rest" by (cases "data c") auto
  from committed_toggle [OF mounted same w present unlocked(1,2), of uuid]
  obtain t s' s1 c0 where hid: "has_id (store c) i t"
    and fl: "flags_only (store c) s'" and l: "layout_only s' s1"
    and c0: "c0 = c\<lparr>store := s', isTransitioning := True, dataCommits := Suc (dataCommits c),
                      timers := timers c @ [transitionDuration (this_props c) + 10],
                      targetNode := Some t\<rparr>"
    and h: "handleNodeToggle k uuid c i
              = Inr (handleOnClickCb
                       (componentDidUpdate
                          (c0\<lparr>d3 := calculateD3Geometry (this_props c),
                              this_props := this_props c, store := s1,
                              layoutPasses := layoutPasses c0 + 1\<rparr>))
                       (Some t))"
    by blast
  define cu where "cu = c0\<lparr>d3 := calculateD3Geometry (this_props c),
      this_props := this_props c, store := s1, layoutPasses := layoutPasses c0 + 1\<rparr>"
  define c1 where "c1 = handleOnClickCb (componentDidUpdate cu) (Some t)"
  have cu: "this_props cu = this_props c" "store cu = s1" "dataRef cu = dataRef c"
    "data cu = data c" "isTransitioning cu" "initialRender cu = initialRender c"
    "timers cu = [transitionDuration (this_props c) + 10]"
    "dataCommits cu = Suc (dataCommits c)" "onUpdateCalls cu = onUpdateCalls c"
    "targetNode cu = Some t"
    using unlocked(3) by (simp_all add: cu_def c0)
  have s1: "step k uuid c (Toggle i) = Inr c1" using h by (simp add: c1_def cu_def)
  have f1: "this_props c1 = this_props c" "store c1 = s1" "dataRef c1 = dataRef c"
    "data c1 = data c" "isTransitioning c1"
    "timers c1 = [transitionDuration (this_props c) + 10]"
    "dataCommits c1 = Suc (dataCommits c)"
    unfolding c1_def by (simp_all add: handleOnClickCb_fields componentDidUpdate_fields cu)
  have ir1: "\<not> initialRender c1"
    unfolding c1_def
    by (simp add: handleOnClickCb_initialRender componentDidUpdate_initialRender cu mounted)
  have u1: "onUpdateCalls c1 = onUpdateCalls c @
      [\<lparr>un_node = Some t, un_zoom = scale (d3 c1), un_translate = translate (d3 c1)\<rparr>]"
    unfolding c1_def using notify
    by (simp add: handleOnClickCb_fields componentDidUpdate_fields cu)
  have w1: "tree_within u_children k (store c1) (data c1)"
    using w fl l by (simp add: f1 layout_only_tree_within flags_only_tree_within)
  have second: "\<exists>c2. step k uuid c1 (Toggle j) = Inr c2
      \<and> c2\<lparr>onClickCalls := onClickCalls c1\<rparr> = c1
      \<and> (\<exists>c3. step k uuid c2 TimerFires = Inr c3
            \<and> \<not> isTransitioning c3 \<and> timers c3 = []
            \<and> dataCommits c3 = dataCommits c1
            \<and> (\<forall>a. collapsed_at (store c3) a = collapsed_at (store c1) a)
            \<and> onUpdateCalls c3 = onUpdateCalls c1 @
                 [\<lparr>un_node = None, un_zoom = scale (d3 c3), un_translate = translate (d3 c3)\<rparr>])"
    for j
  proof -
    from dropped_toggle [OF f1(5) w1, of uuid j] obtain x where
      x: "handleNodeToggle k uuid c1 j = Inr (handleOnClickCb c1 x)" by blast
    define c2 where "c2 = handleOnClickCb c1 x"
    have s2: "step k uuid c1 (Toggle j) = Inr c2" using x by (simp add: c2_def)
    have same2: "c2\<lparr>onClickCalls := onClickCalls c1\<rparr> = c1"
      unfolding c2_def by (rule handleOnClickCb_fields)
    have f2: "this_props c2 = this_props c" "store c2 = s1" "dataRef c2 = dataRef c"
      "data c2 = data c" "timers c2 = [transitionDuration (this_props c) + 10]"
      "dataCommits c2 = dataCommits c1" "onUpdateCalls c2 = onUpdateCalls c1"
      "initialRender c2 = initialRender c1"
      unfolding c2_def by (simp_all add: handleOnClickCb_fields handleOnClickCb_initialRender f1)
    have t2: "targetNode c2 = None"
      unfolding c2_def c1_def by (simp add: handleOnClickCb_def componentDidUpdate_def)
    define cr where "cr = c2\<lparr>isTransitioning := False, timers := []\<rparr>"
    have wr: "tree_within u_children k (store cr) [r]"
      using w1 d by (auto simp: cr_def f1 f2 intro: tree_within_member)
    have pre: "\<not> initialRender cr" "dataRef cr = data_ref (this_props c2)" "data cr = r # rest"
      using ir1 same d by (simp_all add: cr_def f2)
    from update_mounted [OF pre wr, of uuid] obtain s3 where
      l3: "layout_only (store cr) s3"
      and u3: "update k uuid (this_props c2) cr
        = Inr (componentDidUpdate
                 (cr\<lparr>d3 := calculateD3Geometry (this_props c2), this_props := this_props c2,
                      store := s3, layoutPasses := layoutPasses cr + 1\<rparr>))"
      by blast
    define cv where "cv = cr\<lparr>d3 := calculateD3Geometry (this_props c2),
        this_props := this_props c2, store := s3, layoutPasses := layoutPasses cr + 1\<rparr>"
    define c3 where "c3 = componentDidUpdate cv"
    have cv: "this_props cv = this_props c" "store cv = s3" "\<not> isTransitioning cv"
      "timers cv = []" "dataCommits cv = dataCommits c1" "onUpdateCalls cv = onUpdateCalls c1"
      "targetNode cv = None"
      by (simp_all add: cv_def cr_def f2 t2)
    have s3: "step k uuid c2 TimerFires = Inr c3"
      using u3 by (simp add: f2 c3_def cv_def cr_def)
    have "store cr = store c1" by (simp add: cr_def f1 f2)
    with l3 have "\<forall>a. collapsed_at s3 a = collapsed_at (store c1) a"
      by (simp add: layout_only_collapsed)
    moreover have "store c3 = s3" "\<not> isTransitioning c3" "timers c3 = []"
      "dataCommits c3 = dataCommits c1"
      unfolding c3_def by (simp_all add: componentDidUpdate_fields cv)
    moreover have "onUpdateCalls c3 = onUpdateCalls c1 @
        [\<lparr>un_node = None, un_zoom = scale (d3 c3), un_translate = translate (d3 c3)\<rparr>]"
      unfolding c3_def using notify by (simp add: componentDidUpdate_fields cv)
    ultimately show ?thesis using s2 same2 s3 by auto
  qed
  from s1 hid f1(5,6,7) u1 second show ?thesis by blast
qed

text \<open>
  The mounted example component: C is toggled twice before the timer fires.
\<close>

theorem second_toggle_dropped_witness:
  "\<not> initialRender (mounted_component example_store)
   \<and> tree_within u_children 3 example_store [0]
   \<and> filter (has_id example_store ''C'') (all_nodes 3 example_store [0]) = [2]
   \<and> (\<exists>c1 c2. step 3 (\<lambda>i. ''u'') (mounted_component example_store) (Toggle ''C'') = Inr c1
         \<and> step 3 (\<lambda>i. ''u'') c1 (Toggle ''C'') = Inr c2
         \<and> dataCommits c1 = 1 \<and> length (onUpdateCalls c1) = 1
         \<and> dataCommits c2 = 1 \<and> length (onUpdateCalls c2) = 1
         \<and> store c2 = store c1 \<and> timers c2 = [510])"
proof -
  let ?c = "mounted_component example_store"
  have w: "tree_within u_children 3 example_store [0]"
    by (simp add: eval_nat_numeral kids_by_def example_store_def)
  have a: "all_nodes 3 example_store [0] = [0, 1, 2, 3]"
    by (simp add: eval_nat_numeral kids_by_def example_store_def)
  have f: "filter (has_id example_store ''C'') (all_nodes 3 example_store [0]) = [2]"
    unfolding a by (simp add: has_id_def example_store_def)
  have h: "\<not> initialRender ?c" "dataRef ?c = data_ref (this_props ?c)"
    "tree_within u_children 3 (store ?c) (data ?c)"
    "filter (has_id (store ?c) ''C'') (all_nodes 3 (store ?c) (data ?c)) \<noteq> []"
    "collapsible (this_props ?c)" "\<not> isTransitioning ?c" "timers ?c = []"
    "onUpdate (this_props ?c)"
    using w f by (simp_all add: mounted_component_def fresh_component_def example_props_def)
  from second_toggle_dropped [OF h, of "\<lambda>i. ''u''"] obtain c1 t where
    c1: "step 3 (\<lambda>i. ''u'') ?c (Toggle ''C'') = Inr c1"
    "timers c1 = [transitionDuration (this_props ?c) + 10]"
    "dataCommits c1 = Suc (dataCommits ?c)"
    "onUpdateCalls c1 = onUpdateCalls ?c @
       [\<lparr>un_node = Some t, un_zoom = scale (d3 c1), un_translate = translate (d3 c1)\<rparr>]"
    and nxt: "\<forall>j. \<exists>c2. step 3 (\<lambda>i. ''u'') c1 (Toggle j) = Inr c2
                  \<and> c2\<lparr>onClickCalls := onClickCalls c1\<rparr> = c1"
    by blast
  from nxt obtain c2 where c2: "step 3 (\<lambda>i. ''u'') c1 (Toggle ''C'') = Inr c2"
    "c2\<lparr>onClickCalls := onClickCalls c1\<rparr> = c1" by blast
  from c2(2) have "dataCommits (c2\<lparr>onClickCalls := onClickCalls c1\<rparr>) = dataCommits c1"
    "onUpdateCalls (c2\<lparr>onClickCalls := onClickCalls c1\<rparr>) = onUpdateCalls c1"
    "store (c2\<lparr>onClickCalls := onClickCalls c1\<rparr>) = store c1"
    "timers (c2\<lparr>onClickCalls := onClickCalls c1\<rparr>) = timers c1"
    by simp_all
  then have e: "dataCommits c2 = dataCommits c1" "onUpdateCalls c2 = onUpdateCalls c1"
    "store c2 = store c1" "timers c2 = timers c1" by simp_all
  have v: "dataCommits c1 = 1" "length (onUpdateCalls c1) = 1" "timers c1 = [510]"
    using c1(2,3,4)
    by (simp_all add: mounted_component_def fresh_component_def example_props_def)
  from h(1) w f c1(1) c2(1) e v show ?thesis by auto
qed

subsection \<open>C10: the initial depth sets the flag of every laid-out node\<close>

text \<open>
  C10. On the first render with \<^verbatim>\<open>useCollapseData\<close> false and \<^verbatim>\<open>initialDepth\<close> defined,
  every node of the first layout has a depth and ends with
  \<^verbatim>\<open>_collapsed = (depth >= initialDepth)\<close>: a laid-out node above the initial depth is
  set to \<^verbatim>\<open>false\<close>, whatever flag the input data gave it. The nodes that the first
  layout did not reach keep their flags.
\<close>

theorem initial_depth_sets_laid_out_flags:
  assumes "data c = r # rest" and "tree_within u_children fuel (store c) [r]"
    and "useCollapseData (this_props c) = False" and "initialDepth (this_props c) = Some lo"
    and "initialRender c"
  shows "\<exists>s1 nodes1 c' nodes links.
           tree_nodes childrenAccessor fuel (store c) r = Inr (s1, nodes1)
         \<and> generateTree fuel c = Inr (c', nodes, links)
         \<and> (\<forall>a \<in> set nodes1. \<exists>d. depth_at s1 a = Some d
                \<and> collapsed_at (store c') a = Some (lo \<le> real d))
         \<and> (\<forall>a. a \<notin> set nodes1 \<longrightarrow> collapsed_at (store c') a = collapsed_at (store c) a)"
proof -
  from generateTree_first [OF assms] obtain s1 nodes1 s2 s3 nodes3 where
    g: "tree_nodes childrenAccessor fuel (store c) r = Inr (s1, nodes1)"
    "layout_only (store c) s1"
    "\<forall>v \<in> set nodes1. depth_at s1 v \<noteq> None"
    "\<forall>a \<in> set nodes1. \<exists>n. s1 a = Some n \<and> s2 a = Some (n\<lparr>u_collapsed := Some (depth_ge n lo)\<rparr>)"
    "\<forall>a. a \<notin> set nodes1 \<longrightarrow> s2 a = s1 a"
    "layout_only s2 s3"
    "generateTree fuel c
      = Inr (c\<lparr>store := s3, layoutPasses := layoutPasses c + 2\<rparr>, nodes3, tree_links s3 nodes3)"
    by blast
  have c3: "collapsed_at s3 a = collapsed_at s2 a" for a
    using g(6) by (rule layout_only_collapsed)
  have c1: "collapsed_at s1 a = collapsed_at (store c) a" for a
    using g(2) by (rule layout_only_collapsed)
  have in1: "\<exists>d. depth_at s1 a = Some d \<and> collapsed_at s3 a = Some (lo \<le> real d)"
    if "a \<in> set nodes1" for a
  proof -
    from g(4) that obtain n where n: "s1 a = Some n"
      "s2 a = Some (n\<lparr>u_collapsed := Some (depth_ge n lo)\<rparr>)" by blast
    from g(3) that n(1) obtain d where d: "depth n = Some d" by (auto simp: depth_at_def)
    with n have "depth_at s1 a = Some d" "collapsed_at s2 a = Some (lo \<le> real d)"
      by (simp_all add: depth_at_def collapsed_at_def depth_ge_def)
    with c3 [of a] show ?thesis by simp
  qed
  have out1: "collapsed_at s3 a = collapsed_at (store c) a" if "a \<notin> set nodes1" for a
  proof -
    from g(5) that have "s2 a = s1 a" by blast
    then have "collapsed_at s2 a = collapsed_at s1 a" by (simp add: collapsed_at_def)
    with c3 [of a] c1 [of a] show ?thesis by simp
  qed
  from g(1,7) in1 out1 show ?thesis by simp
qed

text \<open>
  The chain A, B, C with A marked collapsed by the input data and \<^verbatim>\<open>initialDepth = 1\<close>:
  the first layout reaches A only; A, at depth 0, is set to expanded; B keeps its flag.
\<close>

theorem initial_depth_sets_laid_out_flags_witness:
  "tree_within u_children 3 chain_store [0]
   \<and> (\<exists>s1 c' nodes links.
         tree_nodes childrenAccessor 3 chain_store 0 = Inr (s1, [0])
       \<and> generateTree 3 (fresh_component chain_store) = Inr (c', nodes, links)
       \<and> collapsed_at chain_store 0 = Some True \<and> collapsed_at (store c') 0 = Some False
       \<and> collapsed_at (store c') 1 = collapsed_at chain_store 1)"
proof -
  have w: "tree_within u_children 3 chain_store [0]"
    by (simp add: eval_nat_numeral kids_by_def chain_store_def)
  let ?c = "fresh_component chain_store"
  have h: "data ?c = [0]" "tree_within u_children 3 (store ?c) [0]"
    "useCollapseData (this_props ?c) = False" "initialDepth (this_props ?c) = Some 1"
    "initialRender ?c"
    using w by (simp_all add: fresh_component_def example_props_def)
  from initial_depth_sets_laid_out_flags [OF h] obtain s1 nodes1 c' nodes links where
    g: "tree_nodes childrenAccessor 3 (store ?c) 0 = Inr (s1, nodes1)"
    "generateTree 3 ?c = Inr (c', nodes, links)"
    "\<forall>a \<in> set nodes1. \<exists>d. depth_at s1 a = Some d \<and> collapsed_at (store c') a = Some (1 \<le> real d)"
    "\<forall>a. a \<notin> set nodes1 \<longrightarrow> collapsed_at (store c') a = collapsed_at (store ?c) a"
    by blast
  have st: "store ?c = chain_store" by (simp add: fresh_component_def)
  from g(1) chain_first_pass have n1: "nodes1 = [0]"
    and s1: "s1 = chain_store(0 \<mapsto> \<lparr>node_id = Some ''A'', u_collapsed = Some True,
        children = None, u_children = Some [1], depth = Some 0\<rparr>)"
    unfolding st by simp_all
  have "depth_at s1 0 = Some 0" unfolding s1 by (simp add: depth_at_def)
  with g(3) n1 have a: "collapsed_at (store c') 0 = Some False" by auto
  from g(4) n1 have b: "collapsed_at (store c') 1 = collapsed_at chain_store 1"
    unfolding st by simp
  have "collapsed_at chain_store 0 = Some True" by (simp add: collapsed_at_def chain_store_def)
  with w g(1,2) n1 a b show ?thesis unfolding st by blast
qed

end
